theory Spec2Isabelle
  imports Main "HOL-Library.Word"
begin

unbundle bit_operations_syntax

section \<open>The TypeScript SDK: \<open>PartitionHelper\<close> (sdk/client.ts)\<close>

subsection \<open>JavaScript numbers and their 32-bit bitwise operators\<close>

text \<open>
  A JavaScript \<open>number\<close> that holds an integer is modelled as an \<open>int\<close>.  The bitwise
  operators first convert their operands with ToInt32 (the value modulo \<open>2^32\<close>, read as
  two's complement) and return a signed 32-bit result; a shift uses only the low five
  bits of the shift count.  Comparison (\<open>>\<close>, \<open>===\<close>) and subtraction work on the
  numbers themselves, without any wrap-around.  Outcome indices and outcome counts are
  natural numbers.
\<close>

definition ToInt32 :: "int \<Rightarrow> 32 word" where
  "ToInt32 x = word_of_int x"

definition js_and :: "int \<Rightarrow> int \<Rightarrow> int" where
  "js_and a b = sint (ToInt32 a AND ToInt32 b)"

definition js_or :: "int \<Rightarrow> int \<Rightarrow> int" where
  "js_or a b = sint (ToInt32 a OR ToInt32 b)"

definition js_shl :: "int \<Rightarrow> nat \<Rightarrow> int" where
  "js_shl a n = sint (push_bit (n mod 32) (ToInt32 a))"

definition js_sar :: "int \<Rightarrow> nat \<Rightarrow> int" where
  "js_sar a n = sint (signed_drop_bit (n mod 32) (ToInt32 a))"

subsection \<open>Partitions\<close>

text \<open>\<open>binaryPartition()\<close> returns \<open>[0b01, 0b10]\<close>.\<close>

definition binaryPartition :: "int list" where
  "binaryPartition = [1, 2]"

text \<open>\<open>fullPartition(outcomeCount)\<close> pushes \<open>1 << i\<close> for \<open>i = 0, ..., outcomeCount - 1\<close>.\<close>

definition fullPartition :: "nat \<Rightarrow> int list" where
  "fullPartition outcomeCount = map (\<lambda>i. js_shl 1 i) [0..<outcomeCount]"

text \<open>\<open>const fullIndexSet = (1 << outcomeCount) - 1\<close>.\<close>

definition fullIndexSet :: "nat \<Rightarrow> int" where
  "fullIndexSet outcomeCount = js_shl 1 outcomeCount - 1"

text \<open>
  The \<open>for (const indexSet of partition)\<close> loop of \<open>validatePartition\<close> with its two early
  returns, followed by the final \<open>return union === fullIndexSet\<close>.  The second argument is
  the running \<open>union\<close> (written \<open>un\<close>).
\<close>

fun validate_loop :: "int \<Rightarrow> int \<Rightarrow> int list \<Rightarrow> bool" where
  "validate_loop full un [] = (un = full)"
| "validate_loop full un (indexSet # rest) =
     (if js_and un indexSet \<noteq> 0 then False
      else if indexSet > full then False
      else validate_loop full (js_or un indexSet) rest)"

definition validatePartition :: "int list \<Rightarrow> nat \<Rightarrow> bool" where
  "validatePartition part outcomeCount =
     (if length part = 0 \<or> length part = 1 then False
      else validate_loop (fullIndexSet outcomeCount) 0 part)"

subsection \<open>Index sets and outcome lists\<close>

text \<open>\<open>outcomeToIndexSet(outcomeIndex)\<close> is \<open>1 << outcomeIndex\<close>.\<close>

definition outcomeToIndexSet :: "nat \<Rightarrow> int" where
  "outcomeToIndexSet outcomeIndex = js_shl 1 outcomeIndex"

text \<open>\<open>outcomesToIndexSet\<close> is \<open>outcomeIndices.reduce((acc, idx) => acc | (1 << idx), 0)\<close>.\<close>

definition outcomesToIndexSet :: "nat list \<Rightarrow> int" where
  "outcomesToIndexSet outcomeIndices = foldl (\<lambda>acc idx. js_or acc (js_shl 1 idx)) 0 outcomeIndices"

lemma sint_ToInt32: "- 2147483648 \<le> a \<Longrightarrow> a < 2147483648 \<Longrightarrow> sint (ToInt32 a) = a"
  unfolding ToInt32_def by (simp add: sint_sbintrunc' signed_take_bit_int_eq_self)

lemma sint_ToInt32_less: "sint (ToInt32 a) < 2147483648"
  using sint_lt [of "ToInt32 a"] by simp

lemma js_sar_Suc_0: "js_sar r (Suc 0) = sint (ToInt32 r) div 2"
  unfolding js_sar_def by (simp add: sint_signed_drop_bit_eq drop_bit_eq_div)

lemma js_sar_less: "0 < r \<Longrightarrow> js_sar r (Suc 0) < r"
proof (cases "r < 2147483648")
  case True
  assume "0 < r"
  with True have "sint (ToInt32 r) = r" by (intro sint_ToInt32) auto
  with \<open>0 < r\<close> show ?thesis by (simp add: js_sar_Suc_0)
next
  case False
  have "sint (ToInt32 r) < 2147483648" by (rule sint_ToInt32_less)
  with False show ?thesis by (simp add: js_sar_Suc_0)
qed

text \<open>
  The \<open>while (remaining > 0)\<close> loop of \<open>indexSetToOutcomes\<close>: it pushes \<open>bit\<close> when
  \<open>remaining & 1\<close> is truthy, then executes \<open>remaining >>= 1\<close> and \<open>bit++\<close>.
\<close>

function indexSetToOutcomes_loop :: "int \<Rightarrow> nat \<Rightarrow> nat list \<Rightarrow> nat list" where
  "indexSetToOutcomes_loop remaining b outcomes =
     (if remaining > 0
      then indexSetToOutcomes_loop (js_sar remaining 1) (b + 1)
             (if js_and remaining 1 \<noteq> 0 then outcomes @ [b] else outcomes)
      else outcomes)"
  by pat_completeness auto
termination
  by (relation "measure (\<lambda>(remaining, b, outcomes). nat remaining)")
     (use js_sar_less in \<open>auto simp: nat_less_iff\<close>)

definition indexSetToOutcomes :: "int \<Rightarrow> nat list" where
  "indexSetToOutcomes indexSet = indexSetToOutcomes_loop indexSet 0 []"

section \<open>The SDK client's invariant check (sdk/client.ts)\<close>

text \<open>
  \<open>verifyCTFInvariant\<close> first awaits \<open>getVaultBalance\<close>, which calls \<open>getAccount\<close> on the
  vault's address without a \<open>try\<close>: when no token account exists there the call throws and
  the promise of \<open>verifyCTFInvariant\<close> rejects.  The first argument is the amount held by
  the vault's token account, \<open>None\<close> when the account does not exist, and the result \<open>None\<close>
  is the rejected promise.  Then, for each outcome mint, the mint's supply is added; a mint
  whose account is missing or not parsed is skipped (\<open>None\<close> in the list) but still counts
  in \<open>outcomeMints.length\<close>.  The listed accounts are taken to be mint accounts, whose
  parsed data carry a supply.  All arithmetic is on \<open>BigInt\<close>.  The check is
  \<open>totalOutcomeSupply === vaultBalance * BigInt(outcomeMints.length)\<close>.
\<close>

record invariant_report =
  isValid :: bool
  vaultBalance :: nat
  totalOutcomeSupply :: nat

fun total_supply :: "nat option list \<Rightarrow> nat" where
  "total_supply [] = 0"
| "total_supply (None # rest) = total_supply rest"
| "total_supply (Some s # rest) = s + total_supply rest"

definition getVaultBalance :: "nat option \<Rightarrow> nat option" where
  "getVaultBalance vaultAccount =
     (case vaultAccount of None \<Rightarrow> None | Some amount \<Rightarrow> Some amount)"

definition verifyCTFInvariant :: "nat option \<Rightarrow> nat option list \<Rightarrow> invariant_report option" where
  "verifyCTFInvariant vaultAccount outcomeMints =
     (case getVaultBalance vaultAccount of
        None \<Rightarrow> None
      | Some vault_balance \<Rightarrow>
          (let total = total_supply outcomeMints;
               expectedTotal = vault_balance * length outcomeMints
           in Some \<lparr>isValid = (total = expectedTotal), vaultBalance = vault_balance,
                     totalOutcomeSupply = total\<rparr>))"

section \<open>The program as the implementation guide gives it\<close>

text \<open>
  The guide shows the on-chain program in Rust fragments.  Fixed-width integers are words;
  a public key is an opaque number.  A Rust panic (an \<open>unwrap\<close> of \<open>None\<close>, an arithmetic
  overflow in a build with overflow checks) aborts the instruction and is modelled as an
  error value.  Whether \<open>+\<close>, \<open>sum\<close> and \<open><<\<close> panic or wrap on overflow depends on the build
  profile, so the model takes it as the parameter \<open>overflow_checks\<close>.
\<close>

type_synonym u8 = "8 word"
type_synonym u64 = "64 word"
type_synonym u128 = "128 word"
type_synonym pubkey = nat

text \<open>
  The errors of the program.  \<open>UnauthorizedOracle\<close> and \<open>ConditionNotResolved\<close> occur in the
  guide's fragments and \<open>InvalidPartition\<close> in the tests; the others are those of the
  specification's error list.  \<open>ZeroAmount\<close> stands for the violated precondition
  \<open>amount > 0\<close> of a split, for which the specification names no error.
\<close>

datatype error =
    UnauthorizedOracle
  | AlreadyResolved
  | InvalidPayoutVector
  | ConditionNotResolved
  | InvalidPartition
  | ZeroAmount
  | InsufficientFunds
  | InsufficientPosition
  | InsufficientVault
  | ArithmeticOverflow
  | DivisionByZero

subsection \<open>\<open>validate_partition\<close>\<close>

text \<open>
  \<open>1u64 << outcome_slot_count\<close> with a \<open>u8\<close> count: a shift by 64 or more panics under
  overflow checks (\<open>None\<close>) and otherwise uses the count modulo 64.
\<close>

definition shl_u64 :: "bool \<Rightarrow> u64 \<Rightarrow> u8 \<Rightarrow> u64 option" where
  "shl_u64 overflow_checks a n =
     (if unat n < 64 then Some (push_bit (unat n) a)
      else if overflow_checks then None
      else Some (push_bit (unat n mod 64) a))"

text \<open>The \<open>for &index_set in partition\<close> loop and the final \<open>union == full_index_set\<close>.\<close>

fun validate_partition_loop :: "u64 \<Rightarrow> u64 \<Rightarrow> u8 list \<Rightarrow> bool" where
  "validate_partition_loop full_index_set un [] = (un = full_index_set)"
| "validate_partition_loop full_index_set un (index_set # rest) =
     (let index_set_u64 = (ucast index_set :: u64) in
      if un AND index_set_u64 \<noteq> 0 then False
      else if index_set_u64 > full_index_set then False
      else validate_partition_loop full_index_set (un OR index_set_u64) rest)"

definition validate_partition :: "bool \<Rightarrow> u8 list \<Rightarrow> u8 \<Rightarrow> bool option" where
  "validate_partition overflow_checks part outcome_slot_count =
     (if part = [] \<or> length part = 1 then Some False
      else case shl_u64 overflow_checks 1 outcome_slot_count of
             None \<Rightarrow> None
           | Some shifted \<Rightarrow> Some (validate_partition_loop (shifted - 1) 0 part))"

subsection \<open>The condition account and \<open>report_payout\<close>\<close>

text \<open>The \<open>Condition\<close> account of the README (the field \<open>oracle\<close> is written \<open>oracle_key\<close>).\<close>

record condition =
  oracle_key :: pubkey
  question_id :: "u8 list"
  outcome_slot_count :: u8
  is_resolved :: bool
  payout_numerators :: "u64 list"
  condition_id :: "u8 list"

text \<open>
  \<open>report_payout\<close> as the guide gives it: the \<open>require!\<close> that the signing oracle account is
  \<open>condition.oracle\<close>, then the two assignments.  \<open>signer\<close> is the key of the \<open>oracle\<close> account
  of the instruction.
\<close>

definition report_payout :: "pubkey \<Rightarrow> u64 list \<Rightarrow> condition \<Rightarrow> error + condition" where
  "report_payout signer numerators c =
     (if signer \<noteq> oracle_key c then Inl UnauthorizedOracle
      else Inr (c\<lparr>payout_numerators := numerators, is_resolved := True\<rparr>))"

subsection \<open>Payout arithmetic of \<open>redeem_positions\<close>\<close>

text \<open>\<open>u64\<close> addition, as in \<open>total_payout += payout\<close> and in \<open>iter().sum()\<close>.\<close>

definition add_u64 :: "bool \<Rightarrow> u64 \<Rightarrow> u64 \<Rightarrow> error + u64" where
  "add_u64 overflow_checks a b =
     (if unat a + unat b < 2 ^ 64 then Inr (a + b)
      else if overflow_checks then Inl ArithmeticOverflow
      else Inr (a + b))"

fun sum_from :: "bool \<Rightarrow> u64 \<Rightarrow> u64 list \<Rightarrow> error + u64" where
  "sum_from overflow_checks acc [] = Inr acc"
| "sum_from overflow_checks acc (x # xs) =
     (case add_u64 overflow_checks acc x of
        Inl e \<Rightarrow> Inl e
      | Inr acc' \<Rightarrow> sum_from overflow_checks acc' xs)"

text \<open>\<open>let payout_denominator: u64 = condition.payout_numerators.iter().sum()\<close>.\<close>

definition sum_u64 :: "bool \<Rightarrow> u64 list \<Rightarrow> error + u64" where
  "sum_u64 overflow_checks xs = sum_from overflow_checks 0 xs"

text \<open>
  Modelled from the spec: the helper \<open>calculate_payout_numerator\<close>, which the guide calls but
  does not show.  The specification gives the numerator as the sum of
  \<open>payout_numerators[i]\<close> for each bit \<open>i\<close> set in the index set (\<open>selected_total\<close>), and
  requires checked arithmetic that fails rather than wraps.
\<close>

definition selected_total :: "u64 list \<Rightarrow> u8 \<Rightarrow> nat" where
  "selected_total numerators index_set =
     (\<Sum>i\<leftarrow>[0..<length numerators]. if bit index_set i then unat (numerators ! i) else 0)"

text \<open>Modelled from the spec: the result of the helper \<open>calculate_payout_numerator\<close> as a \<open>u64\<close>.\<close>

definition calculate_payout_numerator :: "u64 list \<Rightarrow> u8 \<Rightarrow> error + u64" where
  "calculate_payout_numerator numerators index_set =
     (if selected_total numerators index_set < 2 ^ 64
      then Inr (of_nat (selected_total numerators index_set))
      else Inl ArithmeticOverflow)"

text \<open>\<open>checked_mul\<close> and \<open>checked_div\<close> on \<open>u128\<close>.\<close>

definition checked_mul_u128 :: "u128 \<Rightarrow> u128 \<Rightarrow> u128 option" where
  "checked_mul_u128 a b = (if unat a * unat b < 2 ^ 128 then Some (a * b) else None)"

definition checked_div_u128 :: "u128 \<Rightarrow> u128 \<Rightarrow> u128 option" where
  "checked_div_u128 a b = (if b = 0 then None else Some (a div b))"

text \<open>
  \<open>(amount as u128).checked_mul(payout_numerator as u128).unwrap()
  .checked_div(payout_denominator as u128).unwrap() as u64\<close>: each \<open>unwrap\<close> of \<open>None\<close> is a
  panic, and the final \<open>as u64\<close> truncates.
\<close>

definition payout :: "u64 \<Rightarrow> u64 \<Rightarrow> u64 \<Rightarrow> error + u64" where
  "payout amount payout_numerator payout_denominator =
     (case checked_mul_u128 (ucast amount) (ucast payout_numerator) of
        None \<Rightarrow> Inl ArithmeticOverflow
      | Some multiplied \<Rightarrow>
          (case checked_div_u128 multiplied (ucast payout_denominator) of
             None \<Rightarrow> Inl DivisionByZero
           | Some divided \<Rightarrow> Inr (ucast divided)))"

text \<open>
  The payout of one index set as \<open>redeem_positions\<close> computes it: the denominator, the
  numerator of the index set, then \<open>payout\<close>.  This is the specification's \<open>payoutFor\<close>.
\<close>

definition payoutFor :: "bool \<Rightarrow> u64 list \<Rightarrow> u8 \<Rightarrow> u64 \<Rightarrow> error + u64" where
  "payoutFor overflow_checks numerators index_set amount =
     (case sum_u64 overflow_checks numerators of
        Inl e \<Rightarrow> Inl e
      | Inr payout_denominator \<Rightarrow>
          (case calculate_payout_numerator numerators index_set of
             Inl e \<Rightarrow> Inl e
           | Inr payout_numerator \<Rightarrow> payout amount payout_numerator payout_denominator))"

section \<open>The ledgers and their operations\<close>

text \<open>
  The program file that implements \<open>split_position\<close> and \<open>merge_positions\<close> is not among the
  sources; the SDK only submits the instructions.  The ledgers and the effects of these two
  operations follow the specification.  Their partition check is the program's own
  \<open>validate_partition\<close>, as the guide gives it, on the \<open>u8\<close> index sets of the instruction;
  a panic of that check aborts the instruction.
\<close>

text \<open>
  Modelled from the spec: the ledgers of one condition, missing with the program file.
  \<open>vault\<close> is the Vault balance per collateral asset, \<open>supply_of\<close> the OutcomePosition supply
  per outcome index; \<open>balances\<close> (per asset and owner) and \<open>claims\<close> (per outcome index and
  owner) are the external asset ledger the operations debit, credit, mint and burn.
\<close>

record ledger =
  vault :: "pubkey \<Rightarrow> nat"
  supply_of :: "nat \<Rightarrow> nat"
  balances :: "pubkey \<Rightarrow> pubkey \<Rightarrow> nat"
  claims :: "nat \<Rightarrow> pubkey \<Rightarrow> nat"

text \<open>
  Modelled from the spec: the bound of the accounting arithmetic, which fails with
  \<open>ArithmeticOverflow\<close> rather than wrap; amounts are 64-bit as in the program's instructions.
\<close>

definition u64_max :: nat where
  "u64_max = 18446744073709551615"

text \<open>
  Modelled from the spec: an index set is a bitmask over \<open>[0, outcome_slot_count)\<close>; it covers
  the outcome slots whose bits are set.
\<close>

definition covers :: "nat \<Rightarrow> nat \<Rightarrow> nat \<Rightarrow> bool" where
  "covers n index_set i \<longleftrightarrow> i < n \<and> bit index_set i"

text \<open>Modelled from the spec: the list of the outcome slots an index set covers.\<close>

definition covered :: "nat \<Rightarrow> nat \<Rightarrow> nat list" where
  "covered n index_set = filter (covers n index_set) [0..<n]"

text \<open>
  Modelled from the spec: minting for one index set increases the supply of every covered
  outcome index by \<open>amount\<close> and issues \<open>amount\<close> claim units to the caller.
\<close>

definition mint_claims :: "nat \<Rightarrow> nat \<Rightarrow> pubkey \<Rightarrow> nat \<Rightarrow> ledger \<Rightarrow> error + ledger" where
  "mint_claims n index_set payer amount st =
     (if \<forall>i\<in>set (covered n index_set). supply_of st i + amount \<le> u64_max
      then Inr (st\<lparr>
        supply_of := (\<lambda>i. if covers n index_set i then supply_of st i + amount else supply_of st i),
        claims := (\<lambda>i p. if covers n index_set i \<and> p = payer
                           then claims st i p + amount else claims st i p)\<rparr>)
      else Inl ArithmeticOverflow)"

text \<open>
  Modelled from the spec: burning for one index set takes \<open>amount\<close> claim units of the caller
  in every covered outcome slot and decreases each supply; it fails with
  \<open>InsufficientPosition\<close>, applying nothing, when the caller holds too little or a supply
  would go below zero.
\<close>

definition burn_claims :: "nat \<Rightarrow> nat \<Rightarrow> pubkey \<Rightarrow> nat \<Rightarrow> ledger \<Rightarrow> error + ledger" where
  "burn_claims n index_set payer amount st =
     (if \<forall>i\<in>set (covered n index_set). amount \<le> claims st i payer \<and> amount \<le> supply_of st i
      then Inr (st\<lparr>
        supply_of := (\<lambda>i. if covers n index_set i then supply_of st i - amount else supply_of st i),
        claims := (\<lambda>i p. if covers n index_set i \<and> p = payer
                           then claims st i p - amount else claims st i p)\<rparr>)
      else Inl InsufficientPosition)"

text \<open>Modelled from the spec: minting for every index set of a partition, in order.\<close>

fun mint_all :: "nat \<Rightarrow> nat list \<Rightarrow> pubkey \<Rightarrow> nat \<Rightarrow> ledger \<Rightarrow> error + ledger" where
  "mint_all n [] payer amount st = Inr st"
| "mint_all n (s # rest) payer amount st =
     (case mint_claims n s payer amount st of
        Inl e \<Rightarrow> Inl e
      | Inr st' \<Rightarrow> mint_all n rest payer amount st')"

text \<open>Modelled from the spec: burning for every index set of a partition, in order.\<close>

fun burn_all :: "nat \<Rightarrow> nat list \<Rightarrow> pubkey \<Rightarrow> nat \<Rightarrow> ledger \<Rightarrow> error + ledger" where
  "burn_all n [] payer amount st = Inr st"
| "burn_all n (s # rest) payer amount st =
     (case burn_claims n s payer amount st of
        Inl e \<Rightarrow> Inl e
      | Inr st' \<Rightarrow> burn_all n rest payer amount st')"

text \<open>
  Modelled from the spec: Split, whose code is in the missing program file.  It requires
  \<open>amount > 0\<close> and a partition that \<open>validate_partition\<close> accepts (\<open>InvalidPartition\<close>
  otherwise; a panic of the check is reported as \<open>ArithmeticOverflow\<close>), debits the payer,
  credits the vault and mints the claims of every index set; any failure returns the error
  and leaves the ledgers as they were.
\<close>

definition split ::
  "bool \<Rightarrow> condition \<Rightarrow> pubkey \<Rightarrow> nat \<Rightarrow> u8 list \<Rightarrow> pubkey \<Rightarrow> ledger \<Rightarrow> error + ledger" where
  "split overflow_checks c collateral_asset amount part payer st =
     (if amount = 0 then Inl ZeroAmount
      else case validate_partition overflow_checks part (outcome_slot_count c) of
        None \<Rightarrow> Inl ArithmeticOverflow
      | Some valid \<Rightarrow>
          if \<not> valid then Inl InvalidPartition
          else if balances st collateral_asset payer < amount then Inl InsufficientFunds
          else if vault st collateral_asset + amount > u64_max then Inl ArithmeticOverflow
          else mint_all (unat (outcome_slot_count c)) (map unat part) payer amount
                 (st\<lparr>balances := (balances st)(collateral_asset :=
                         (balances st collateral_asset)(payer := balances st collateral_asset payer - amount)),
                      vault := (vault st)(collateral_asset := vault st collateral_asset + amount)\<rparr>))"

text \<open>
  Modelled from the spec: Merge, whose code is in the missing program file.  It requires a
  partition that \<open>validate_partition\<close> accepts, burns the claims of every index set
  (\<open>InsufficientPosition\<close>), then decreases the vault (\<open>InsufficientVault\<close>) and credits the
  caller.
\<close>

definition merge ::
  "bool \<Rightarrow> condition \<Rightarrow> pubkey \<Rightarrow> nat \<Rightarrow> u8 list \<Rightarrow> pubkey \<Rightarrow> ledger \<Rightarrow> error + ledger" where
  "merge overflow_checks c collateral_asset amount part payer st =
     (case validate_partition overflow_checks part (outcome_slot_count c) of
        None \<Rightarrow> Inl ArithmeticOverflow
      | Some valid \<Rightarrow>
          if \<not> valid then Inl InvalidPartition
          else case burn_all (unat (outcome_slot_count c)) (map unat part) payer amount st of
            Inl e \<Rightarrow> Inl e
          | Inr st' \<Rightarrow>
              if vault st' collateral_asset < amount then Inl InsufficientVault
              else Inr (st'\<lparr>
                vault := (vault st')(collateral_asset := vault st' collateral_asset - amount),
                balances := (balances st')(collateral_asset :=
                   (balances st' collateral_asset)(payer := balances st' collateral_asset payer + amount))\<rparr>))"

subsection \<open>Histories of splits and merges\<close>

text \<open>
  Modelled from the spec: the ledgers of a condition before its first Split (the vault is
  created lazily, so every vault balance and every supply is zero); \<open>bal\<close> gives what the
  users hold in the external asset ledger.
\<close>

definition initial_ledger :: "(pubkey \<Rightarrow> pubkey \<Rightarrow> nat) \<Rightarrow> ledger" where
  "initial_ledger bal = \<lparr>vault = (\<lambda>_. 0), supply_of = (\<lambda>_. 0), balances = bal, claims = (\<lambda>_ _. 0)\<rparr>"

text \<open>
  A request to split or to merge: collateral asset, amount, partition, payer.  A request
  that fails leaves the ledgers unchanged; \<open>run\<close> applies a history of requests.
\<close>

datatype ledger_op =
    Split pubkey nat "u8 list" pubkey
  | Merge pubkey nat "u8 list" pubkey

fun op_asset :: "ledger_op \<Rightarrow> pubkey" where
  "op_asset (Split asset amount part payer) = asset"
| "op_asset (Merge asset amount part payer) = asset"

fun op_partition :: "ledger_op \<Rightarrow> u8 list" where
  "op_partition (Split asset amount part payer) = part"
| "op_partition (Merge asset amount part payer) = part"

fun apply_op :: "bool \<Rightarrow> condition \<Rightarrow> ledger \<Rightarrow> ledger_op \<Rightarrow> ledger" where
  "apply_op overflow_checks c st (Split asset amount part payer) =
     (case split overflow_checks c asset amount part payer st of Inl e \<Rightarrow> st | Inr st' \<Rightarrow> st')"
| "apply_op overflow_checks c st (Merge asset amount part payer) =
     (case merge overflow_checks c asset amount part payer st of Inl e \<Rightarrow> st | Inr st' \<Rightarrow> st')"

definition run :: "bool \<Rightarrow> condition \<Rightarrow> ledger_op list \<Rightarrow> ledger \<Rightarrow> ledger" where
  "run overflow_checks c ops st = foldl (apply_op overflow_checks c) st ops"

text \<open>
  Modelled from the spec: the vault of a collateral asset is created lazily by the first
  Split and never destroyed.  \<open>vault_created\<close> tells whether some split of the history on
  that asset has succeeded.
\<close>

fun vault_created :: "bool \<Rightarrow> condition \<Rightarrow> pubkey \<Rightarrow> ledger_op list \<Rightarrow> ledger \<Rightarrow> bool" where
  "vault_created overflow_checks c collateral_asset [] st = False"
| "vault_created overflow_checks c collateral_asset (Split asset amount part payer # ops) st =
     (case split overflow_checks c asset amount part payer st of
        Inl e \<Rightarrow> vault_created overflow_checks c collateral_asset ops st
      | Inr st' \<Rightarrow>
          asset = collateral_asset \<or> vault_created overflow_checks c collateral_asset ops st')"
| "vault_created overflow_checks c collateral_asset (Merge asset amount part payer # ops) st =
     vault_created overflow_checks c collateral_asset ops
       (apply_op overflow_checks c st (Merge asset amount part payer))"

text \<open>
  What the SDK finds at the vault's address after a history: the vault balance once the
  vault exists, no account before.
\<close>

definition vault_account ::
  "bool \<Rightarrow> condition \<Rightarrow> pubkey \<Rightarrow> ledger_op list \<Rightarrow> ledger \<Rightarrow> nat option" where
  "vault_account overflow_checks c collateral_asset ops st =
     (if vault_created overflow_checks c collateral_asset ops st
      then Some (vault (run overflow_checks c ops st) collateral_asset)
      else None)"

subsection \<open>\<open>redeem_positions\<close>\<close>

text \<open>
  The guide gives the control flow of \<open>redeem_positions\<close>: the \<open>require!\<close> on \<open>is_resolved\<close>,
  the denominator, then for each index set the payout, \<open>total_payout += payout\<close> and
  \<open>token::burn\<close>, and after the loop one \<open>token::transfer\<close> of \<open>total_payout\<close>.  The arguments
  of the two token calls are elided there.  To observe the order of the calls the model
  records them as events and returns the ledgers as they stand where execution stops.
\<close>

datatype event = Burn u8 u64 | Transfer u64

fun redeem_loop ::
  "bool \<Rightarrow> condition \<Rightarrow> u64 \<Rightarrow> u64 \<Rightarrow> pubkey \<Rightarrow> u8 list \<Rightarrow> u64 \<Rightarrow> event list \<Rightarrow> ledger
     \<Rightarrow> (error + u64) \<times> event list \<times> ledger" where
  "redeem_loop overflow_checks c payout_denominator amount payer [] total_payout trace st =
     (Inr total_payout, trace, st)"
| "redeem_loop overflow_checks c payout_denominator amount payer (index_set # rest) total_payout trace st =
     (case calculate_payout_numerator (payout_numerators c) index_set of
        Inl e \<Rightarrow> (Inl e, trace, st)
      | Inr payout_numerator \<Rightarrow>
     (case payout amount payout_numerator payout_denominator of
        Inl e \<Rightarrow> (Inl e, trace, st)
      | Inr p \<Rightarrow>
     (case add_u64 overflow_checks total_payout p of
        Inl e \<Rightarrow> (Inl e, trace, st)
      | Inr total_payout' \<Rightarrow>
     (case burn_claims (unat (outcome_slot_count c)) (unat index_set) payer (unat amount) st of
        Inl e \<Rightarrow> (Inl e, trace, st)
      | Inr st' \<Rightarrow>
          redeem_loop overflow_checks c payout_denominator amount payer rest total_payout'
            (trace @ [Burn index_set amount]) st'))))"

text \<open>
  Modelled from the spec: the transfer of the accumulated payout, whose arguments the guide
  elides: it debits the vault and credits the caller, and fails with \<open>InsufficientVault\<close>
  when the vault holds less.
\<close>

definition transfer_payout :: "pubkey \<Rightarrow> pubkey \<Rightarrow> nat \<Rightarrow> ledger \<Rightarrow> error + ledger" where
  "transfer_payout collateral_asset payer tot st =
     (if vault st collateral_asset < tot then Inl InsufficientVault
      else Inr (st\<lparr>
        vault := (vault st)(collateral_asset := vault st collateral_asset - tot),
        balances := (balances st)(collateral_asset :=
           (balances st collateral_asset)(payer := balances st collateral_asset payer + tot))\<rparr>))"

text \<open>
  One execution of \<open>redeem_positions\<close>: the error if it stopped early, the token calls made
  so far, and the ledgers at that point.
\<close>

definition redeem_run ::
  "bool \<Rightarrow> condition \<Rightarrow> pubkey \<Rightarrow> u8 list \<Rightarrow> u64 \<Rightarrow> pubkey \<Rightarrow> ledger
     \<Rightarrow> error option \<times> event list \<times> ledger" where
  "redeem_run overflow_checks c collateral_asset index_sets amount payer st =
     (if \<not> is_resolved c then (Some ConditionNotResolved, [], st)
      else case sum_u64 overflow_checks (payout_numerators c) of
        Inl e \<Rightarrow> (Some e, [], st)
      | Inr payout_denominator \<Rightarrow>
          (case redeem_loop overflow_checks c payout_denominator amount payer index_sets 0 [] st of
             (Inl e, trace, st') \<Rightarrow> (Some e, trace, st')
           | (Inr total_payout, trace, st') \<Rightarrow>
               (case transfer_payout collateral_asset payer (unat total_payout) st' of
                  Inl e \<Rightarrow> (Some e, trace, st')
                | Inr st'' \<Rightarrow> (None, trace @ [Transfer total_payout], st''))))"

text \<open>The instruction as a transaction: a failed execution changes nothing.\<close>

definition redeem_positions ::
  "bool \<Rightarrow> condition \<Rightarrow> pubkey \<Rightarrow> u8 list \<Rightarrow> u64 \<Rightarrow> pubkey \<Rightarrow> ledger \<Rightarrow> error + ledger" where
  "redeem_positions overflow_checks c collateral_asset index_sets amount payer st =
     (case redeem_run overflow_checks c collateral_asset index_sets amount payer st of
        (Some e, trace, st') \<Rightarrow> Inl e
      | (None, trace, st') \<Rightarrow> Inr st')"

section \<open>Notions used to state the properties\<close>

text \<open>The outcome slots an index set of the SDK covers: the positions of its set bits.\<close>

definition slots :: "int \<Rightarrow> nat set" where
  "slots s = {i. bit s i}"

text \<open>The number of index sets of a partition that cover the outcome slot \<open>i\<close>.\<close>

definition cover_count :: "nat \<Rightarrow> nat list \<Rightarrow> nat \<Rightarrow> nat" where
  "cover_count n part i = length (filter (\<lambda>s. covers n s i) part)"

text \<open>
  The full single-bit partition of \<open>n\<close> outcome slots has the index sets
  \<open>2^0, 2^1, ..., 2^(n-1)\<close>, in this order, as the SDK's \<open>fullPartition\<close> builds them.  An
  instruction carries its index sets as \<open>u8\<close>, so such a partition exists for at most eight
  slots.
\<close>

definition full_single_bit :: "u8 list \<Rightarrow> nat \<Rightarrow> bool" where
  "full_single_bit part n \<longleftrightarrow> map unat part = map (\<lambda>i. 2 ^ i) [0..<n]"

text \<open>
  The union of the first \<open>k\<close> index sets of a partition, as a bitmask of unbounded width
  (the operations are those of the integers, not the 32-bit ones of JavaScript).
\<close>

definition union_upto :: "int list \<Rightarrow> nat \<Rightarrow> int" where
  "union_upto part k = foldl (OR) 0 (take k part)"

text \<open>
  The validator as section 4.1 of the specification words it, for comparison with the
  code.  It is no part of the program.  The mask \<open>(1 << outcome_slot_count) - 1\<close> and the
  running union are integers of unbounded width, and each index set \<open>s\<close> is rejected if
  \<open>s == 0\<close>, if it overlaps the running union, or if \<open>s > full\<close>; after the loop the
  partition is accepted iff the union equals the mask and there are at least two index
  sets.
\<close>

fun spec_validate_loop :: "int \<Rightarrow> int \<Rightarrow> int list \<Rightarrow> bool" where
  "spec_validate_loop full un [] = (un = full)"
| "spec_validate_loop full un (s # rest) =
     (if s = 0 then False
      else if un AND s \<noteq> 0 then False
      else if s > full then False
      else spec_validate_loop full (un OR s) rest)"

definition spec_validate :: "int list \<Rightarrow> nat \<Rightarrow> bool" where
  "spec_validate part n \<longleftrightarrow> spec_validate_loop (push_bit n 1 - 1) 0 part \<and> 2 \<le> length part"

section \<open>Partition validation by the SDK\<close>

lemma pow_le_31: "n \<le> 31 \<Longrightarrow> (2::int) ^ n \<le> 2147483648"
  using power_increasing [of n 31 "2::int"] by simp

lemma js_and_int: "0 \<le> a \<Longrightarrow> a < 2147483648 \<Longrightarrow> js_and a b = a AND b"
proof -
  assume a: "0 \<le> a" "a < 2147483648"
  have "ToInt32 a AND ToInt32 b = ToInt32 (a AND b)"
    by (simp add: ToInt32_def of_int_and_eq)
  moreover have "0 \<le> a AND b" "a AND b \<le> a"
    using a by (simp_all add: AND_upper1)
  ultimately have "ToInt32 a AND ToInt32 b = ToInt32 (a AND b)"
    "- 2147483648 \<le> a AND b" "a AND b < 2147483648"
    using a by linarith+
  then show ?thesis by (simp add: js_and_def sint_ToInt32)
qed

lemma js_or_int: "0 \<le> a \<Longrightarrow> a < 2 ^ n \<Longrightarrow> 0 \<le> b \<Longrightarrow> b < 2 ^ n \<Longrightarrow> n \<le> 31 \<Longrightarrow> js_or a b = a OR b"
proof -
  assume a: "0 \<le> a" "a < 2 ^ n" "0 \<le> b" "b < 2 ^ n" "n \<le> 31"
  have "ToInt32 a OR ToInt32 b = ToInt32 (a OR b)"
    by (simp add: ToInt32_def of_int_or_eq)
  moreover have "0 \<le> a OR b" "a OR b < 2 ^ n"
    using a by (simp_all add: OR_upper)
  moreover have "(2::int) ^ n \<le> 2147483648" using a by (simp add: pow_le_31)
  ultimately have "ToInt32 a OR ToInt32 b = ToInt32 (a OR b)"
    "- 2147483648 \<le> a OR b" "a OR b < 2147483648"
    by linarith+
  then show ?thesis by (simp add: js_or_def sint_ToInt32)
qed

lemma js_shl_1: "k < 31 \<Longrightarrow> js_shl 1 k = 2 ^ k"
proof -
  assume k: "k < 31"
  then have m: "k mod 32 = k" by simp
  have "push_bit k (ToInt32 1) = ToInt32 (2 ^ k)"
    by (simp add: ToInt32_def)
  moreover have "(2::int) ^ k < 2147483648"
    using power_strict_increasing [of k 31 "2::int"] k by simp
  moreover have "- 2147483648 \<le> (2::int) ^ k"
    using zero_le_power [of "2::int" k] by linarith
  ultimately show ?thesis by (simp add: js_shl_def m sint_ToInt32)
qed

lemma js_sar_int: "0 \<le> r \<Longrightarrow> r < 2147483648 \<Longrightarrow> js_sar r (Suc 0) = r div 2"
  by (simp add: js_sar_Suc_0 sint_ToInt32)

lemma loop_bits:
  "0 \<le> r \<Longrightarrow> r < 2 ^ k \<Longrightarrow> k \<le> 31 \<Longrightarrow>
   indexSetToOutcomes_loop r b acc = acc @ map (\<lambda>i. b + i) (filter (bit r) [0..<k])"
proof (induction k arbitrary: r b acc)
  case 0
  then have "r = 0" by simp
  then show ?case by simp
next
  case (Suc k)
  show ?case
  proof (cases "r = 0")
    case True
    then show ?thesis by simp
  next
    case False
    with Suc.prems have pos: "0 < r" by simp
    have r31: "r < 2147483648"
      using Suc.prems pow_le_31 [of "Suc k"] by linarith
    have half: "0 \<le> r div 2" "r div 2 < 2 ^ k" "k \<le> 31"
      using Suc.prems by auto
    have odd: "js_and r 1 \<noteq> 0 \<longleftrightarrow> bit r 0"
      by (simp add: js_and_int pos less_imp_le r31 and_one_eq bit_0 mod_2_eq_odd)
    have upt: "[0..<Suc k] = 0 # map Suc [0..<k]"
      by (simp add: upt_conv_Cons map_Suc_upt del: upt_Suc)
    have flt: "filter (bit r) (map Suc [0..<k]) = map Suc (filter (bit (r div 2)) [0..<k])"
      by (simp add: filter_map comp_def bit_Suc)
    have step: "indexSetToOutcomes_loop r b acc =
        indexSetToOutcomes_loop (r div 2) (b + 1) (if bit r 0 then acc @ [b] else acc)"
      using pos odd js_sar_int [of r] r31
      by (subst indexSetToOutcomes_loop.simps) simp
    show ?thesis
      unfolding step Suc.IH [OF half] upt
      by (simp add: flt comp_def del: upt_Suc)
  qed
qed

lemma and_zero_iff_disjoint: "a AND b = 0 \<longleftrightarrow> slots a \<inter> slots b = {}"
  by (auto simp: slots_def bit_eq_iff bit_and_iff)

lemma slots_or: "slots (a OR b) = slots a \<union> slots b"
  by (auto simp: slots_def bit_or_iff)

lemma slots_0: "slots 0 = {}"
  by (simp add: slots_def)

lemma le_full_iff: "0 \<le> s \<Longrightarrow> s \<le> 2 ^ n - 1 \<longleftrightarrow> slots s \<subseteq> {0..<n}"
proof -
  assume s: "0 \<le> s"
  have "s \<le> 2 ^ n - 1 \<longleftrightarrow> take_bit n s = s"
    using s by (auto simp: take_bit_int_eq_self_iff)
  also have "\<dots> \<longleftrightarrow> (\<forall>i. bit s i \<longrightarrow> i < n)"
    by (auto simp: bit_eq_iff bit_take_bit_iff)
  also have "\<dots> \<longleftrightarrow> slots s \<subseteq> {0..<n}"
    by (auto simp: slots_def)
  finally show ?thesis .
qed

lemma eq_full_iff: "u = 2 ^ n - 1 \<longleftrightarrow> slots u = {0..<n}" for u :: int
proof -
  have "u = 2 ^ n - 1 \<longleftrightarrow> u = mask n"
    by (simp only: mask_eq_exp_minus_1)
  also have "\<dots> \<longleftrightarrow> (\<forall>i. bit u i \<longleftrightarrow> i < n)"
    unfolding bit_eq_iff [of u "mask n"] by (simp add: bit_mask_iff)
  also have "\<dots> \<longleftrightarrow> slots u = {0..<n}"
    unfolding slots_def set_eq_iff by simp
  finally show ?thesis .
qed

lemma fullIndexSet_small: "n \<le> 30 \<Longrightarrow> fullIndexSet n = 2 ^ n - 1"
  by (simp add: fullIndexSet_def js_shl_1)

lemma step_sets:
  "A \<inter> B = {} \<Longrightarrow>
   ((\<forall>t\<in>T. (A \<union> B) \<inter> f t = {}) \<and> W \<and> A \<union> B \<union> U = N)
   \<longleftrightarrow> ((\<forall>t\<in>T. A \<inter> f t = {}) \<and> ((\<forall>t\<in>T. B \<inter> f t = {}) \<and> W) \<and> A \<union> (B \<union> U) = N)"
proof -
  have 1: "(\<forall>t\<in>T. (A \<union> B) \<inter> f t = {}) \<longleftrightarrow>
      (\<forall>t\<in>T. A \<inter> f t = {}) \<and> (\<forall>t\<in>T. B \<inter> f t = {})"
    by blast
  have 2: "A \<union> B \<union> U = A \<union> (B \<union> U)"
    by (rule Un_assoc)
  show ?thesis unfolding 1 2 by blast
qed

lemma validate_loop_slots:
  "n \<le> 30 \<Longrightarrow> 0 \<le> u \<Longrightarrow> u < 2 ^ n \<Longrightarrow> \<forall>s\<in>set p. 0 \<le> s \<Longrightarrow>
   validate_loop (2 ^ n - 1) u p \<longleftrightarrow>
     (\<forall>s\<in>set p. slots u \<inter> slots s = {})
     \<and> sorted_wrt (\<lambda>a b. slots a \<inter> slots b = {}) p
     \<and> slots u \<union> (\<Union>s\<in>set p. slots s) = {0..<n}"
proof (induction p arbitrary: u)
  case Nil
  then show ?case by (simp add: eq_full_iff)
next
  case (Cons s p)
  have n31: "n \<le> 31" using Cons.prems by simp
  have u31: "u < 2147483648"
    using Cons.prems(3) pow_le_31 [OF n31] by linarith
  have s0: "0 \<le> s" using Cons.prems by simp
  have andeq: "js_and u s = u AND s"
    using Cons.prems(2) u31 by (rule js_and_int)
  show ?case
  proof (cases "u AND s = 0")
    case False
    then show ?thesis
      by (simp add: andeq and_zero_iff_disjoint)
  next
    case disj: True
    show ?thesis
    proof (cases "s \<le> 2 ^ n - 1")
      case False
      then have "\<not> slots s \<subseteq> {0..<n}" using le_full_iff [OF s0, of n] by blast
      then have "slots u \<union> (\<Union>s\<in>set (s # p). slots s) \<noteq> {0..<n}" by auto
      moreover have "\<not> validate_loop (2 ^ n - 1) u (s # p)"
        using False by (simp only: validate_loop.simps andeq disj) simp
      ultimately show ?thesis by blast
    next
      case True
      then have slt: "s < 2 ^ n" by simp
      have oreq: "js_or u s = u OR s"
        using Cons.prems(2,3) s0 slt n31 by (rule js_or_int)
      have b: "0 \<le> u OR s" "u OR s < 2 ^ n"
        using Cons.prems(2,3) s0 slt by (simp_all add: OR_upper)
      have rest: "\<forall>s\<in>set p. 0 \<le> s" using Cons.prems by simp
      have d: "slots u \<inter> slots s = {}"
        using disj by (simp add: and_zero_iff_disjoint)
      have "validate_loop (2 ^ n - 1) u (s # p) = validate_loop (2 ^ n - 1) (u OR s) p"
        using True by (simp only: validate_loop.simps andeq disj oreq) simp
      also note Cons.IH [OF Cons.prems(1) b rest]
      also have "((\<forall>t\<in>set p. slots (u OR s) \<inter> slots t = {})
          \<and> sorted_wrt (\<lambda>a b. slots a \<inter> slots b = {}) p
          \<and> slots (u OR s) \<union> (\<Union>s\<in>set p. slots s) = {0..<n})
        \<longleftrightarrow> ((\<forall>t\<in>set (s # p). slots u \<inter> slots t = {})
          \<and> sorted_wrt (\<lambda>a b. slots a \<inter> slots b = {}) (s # p)
          \<and> slots u \<union> (\<Union>s\<in>set (s # p). slots s) = {0..<n})"
        unfolding slots_or using d by (simp add: step_sets)
      finally show ?thesis .
    qed
  qed
qed

text \<open>
  Where the 32-bit shift computes the mask exactly, that is for every outcome count
  \<open>n \<le> 30\<close>, and for non-negative index sets, \<open>validatePartition\<close> accepts exactly the
  partitions of at least two index sets that are pairwise disjoint and whose union covers
  exactly the \<open>n\<close> outcome slots.
\<close>

lemma validatePartition_slots:
  assumes "n \<le> 30" and "\<forall>s\<in>set part. 0 \<le> s"
  shows "validatePartition part n \<longleftrightarrow>
           2 \<le> length part
           \<and> (\<forall>i j. i < j \<and> j < length part \<longrightarrow> slots (part ! i) \<inter> slots (part ! j) = {})
           \<and> (\<Union>s\<in>set part. slots s) = {0..<n}"
proof -
  have full: "fullIndexSet n = 2 ^ n - 1"
    using assms(1) by (rule fullIndexSet_small)
  have len: "(length part = 0 \<or> length part = 1) \<longleftrightarrow> \<not> 2 \<le> length part" by arith
  have "validatePartition part n \<longleftrightarrow> 2 \<le> length part \<and> validate_loop (2 ^ n - 1) 0 part"
    unfolding validatePartition_def full len by simp
  also have "validate_loop (2 ^ n - 1) 0 part \<longleftrightarrow>
      sorted_wrt (\<lambda>a b. slots a \<inter> slots b = {}) part \<and> (\<Union>s\<in>set part. slots s) = {0..<n}"
    using validate_loop_slots [OF assms(1) _ _ assms(2), of 0] by (simp add: slots_0)
  also have "sorted_wrt (\<lambda>a b. slots a \<inter> slots b = {}) part \<longleftrightarrow>
      (\<forall>i j. i < j \<and> j < length part \<longrightarrow> slots (part ! i) \<inter> slots (part ! j) = {})"
    by (auto simp: sorted_wrt_iff_nth_less)
  finally show ?thesis .
qed

text \<open>
  The index sets of the program's \<open>validate_partition\<close> are \<open>u8\<close>: the running union never
  has a bit above the eighth, so the loop can only end with a mask of at most eight bits.
\<close>

lemma validate_partition_loop_low:
  "validate_partition_loop full u part \<Longrightarrow> take_bit 8 u = u \<Longrightarrow> take_bit 8 full = full"
proof (induction part arbitrary: u)
  case Nil
  then show ?case by simp
next
  case (Cons s part)
  from Cons.prems(1) have rest: "validate_partition_loop full (u OR ucast s) part"
    by (auto simp: Let_def split: if_splits)
  have "take_bit 8 (ucast s :: u64) = ucast s"
    by (rule bit_word_eqI) (auto simp: bit_take_bit_iff bit_ucast_iff dest: bit_imp_le_length)
  with Cons.prems(2) have "take_bit 8 (u OR ucast s) = u OR ucast s"
    by (simp add: take_bit_or)
  with rest show ?case by (rule Cons.IH)
qed

lemma validate_partition_9: "validate_partition oc part 9 \<noteq> Some True"
proof
  assume "validate_partition oc part 9 = Some True"
  then have "validate_partition_loop (push_bit 9 1 - 1) 0 part"
    by (auto simp: validate_partition_def shl_u64_def split: if_splits)
  then have "take_bit 8 (push_bit 9 1 - 1 :: u64) = push_bit 9 1 - 1"
    by (rule validate_partition_loop_low) simp
  then show False by simp
qed

text \<open>
  Claim C3 (validation for every outcome count from 2 to 256) fails on the code.  The SDK
  computes the mask with the 32-bit shift \<open>1 << outcomeCount\<close>, which uses the count modulo
  32.  Over 34 slots the mask is \<open>(1 << 2) - 1 = 3\<close> and \<open>[0b01, 0b10]\<close>, which leaves the
  slots 2 to 33 uncovered, is accepted.  Over 32 slots the mask is 0 and the two disjoint
  halves \<open>[0x0000FFFF, 0xFFFF0000]\<close>, which cover all 32 slots, are rejected.  The program's
  \<open>validate_partition\<close> takes \<open>u8\<close> index sets and shifts a \<open>u64\<close>: over 9 slots it accepts no
  partition at all; at 64 slots it panics under overflow checks, and without them the mask
  is 0 and \<open>[0, 0]\<close>, which covers nothing, is accepted.
\<close>

theorem validatePartition_wide_counts:
  "fullIndexSet 34 = 3
   \<and> validatePartition [1, 2] 34
   \<and> fullIndexSet 32 = 0
   \<and> \<not> validatePartition [65535, 4294901760] 32
   \<and> validate_partition overflow_checks part 9 \<noteq> Some True
   \<and> validate_partition True [1, 2] 64 = None
   \<and> validate_partition False [0, 0] 64 = Some True"
  using validate_partition_9 [of overflow_checks part]
  by (simp add: validatePartition_def fullIndexSet_def js_shl_def js_and_def js_or_def ToInt32_def
      validate_partition_def shl_u64_def)

lemma sint_ToInt32_ge: "- 2147483648 \<le> sint (ToInt32 a)"
  using sint_ge [of "ToInt32 a"] by simp

lemma js_or_range: "- 2147483648 \<le> js_or a b" "js_or a b < 2147483648"
  unfolding js_or_def using sint_ge [of "ToInt32 a OR ToInt32 b"] sint_lt [of "ToInt32 a OR ToInt32 b"]
  by simp_all

lemma js_and_0: "js_and u 0 = 0"
  by (simp add: js_and_def ToInt32_def)

lemma js_or_0: "- 2147483648 \<le> u \<Longrightarrow> u < 2147483648 \<Longrightarrow> js_or u 0 = u"
proof -
  assume "- 2147483648 \<le> u" "u < 2147483648"
  then have "sint (ToInt32 u) = u" by (rule sint_ToInt32)
  moreover have "ToInt32 u OR ToInt32 0 = ToInt32 u" by (simp add: ToInt32_def)
  ultimately show ?thesis by (simp add: js_or_def)
qed

lemma fullIndexSet_mod: "n mod 32 \<noteq> 31 \<Longrightarrow> fullIndexSet n = 2 ^ (n mod 32) - 1"
proof -
  assume "n mod 32 \<noteq> 31"
  moreover have "n mod 32 < 32" by simp
  ultimately have k: "n mod 32 < 31" by linarith
  have "js_shl 1 n = js_shl 1 (n mod 32)"
    by (simp add: js_shl_def)
  with js_shl_1 [OF k] show ?thesis by (simp add: fullIndexSet_def)
qed

lemma validate_loop_zero:
  "0 \<le> full \<Longrightarrow> - 2147483648 \<le> u \<Longrightarrow> u < 2147483648 \<Longrightarrow>
   validate_loop full u (xs @ 0 # ys) = validate_loop full u (xs @ ys)"
proof (induction xs arbitrary: u)
  case Nil
  then show ?case by (simp add: js_and_0 js_or_0)
next
  case (Cons x xs)
  from Cons.IH [OF Cons.prems(1) js_or_range, of u x] show ?case by simp
qed

text \<open>
  Claim C2, as amended.  \<open>validatePartition\<close> has no check for an empty index set: an index
  set equal to 0 never overlaps the running union and leaves it unchanged.  Whenever the
  full mask is not negative (\<open>outcomeCount mod 32 \<noteq> 31\<close>), inserting a zero index set
  anywhere into a partition of at least two index sets does not change the verdict.
\<close>

theorem validatePartition_zero_index_set:
  assumes "n mod 32 \<noteq> 31" and "2 \<le> length (xs @ ys)"
  shows "validatePartition (xs @ 0 # ys) n = validatePartition (xs @ ys) n"
proof -
  have "0 \<le> fullIndexSet n"
    using fullIndexSet_mod [OF assms(1)] by simp
  then have "validate_loop (fullIndexSet n) 0 (xs @ 0 # ys) = validate_loop (fullIndexSet n) 0 (xs @ ys)"
    by (rule validate_loop_zero) simp_all
  moreover have "\<not> (length (xs @ ys) = 0 \<or> length (xs @ ys) = 1)"
    "\<not> (length (xs @ 0 # ys) = 0 \<or> length (xs @ 0 # ys) = 1)"
    using assms(2) by auto
  ultimately show ?thesis
    unfolding validatePartition_def by (simp only: if_False)
qed

theorem validatePartition_zero_index_set_witness:
  "validatePartition ([1] @ 0 # [2]) 2 = validatePartition ([1] @ [2]) 2"
  using validatePartition_zero_index_set [of 2 "[1]" "[2]"] by simp

text \<open>
  Claim C2 as stated fails: partitions that contain the index set 0 are accepted, by the
  SDK validator and by the guide's Rust validator alike.
\<close>

theorem validatePartition_rejects_zero_counterexample:
  "validatePartition [1, 0, 2] 2
   \<and> validatePartition [0, 3] 2
   \<and> validate_partition True [1, 0, 2] 2 = Some True
   \<and> validate_partition True [0, 3] 2 = Some True"
  by (simp add: validatePartition_def fullIndexSet_def js_shl_def js_and_def js_or_def ToInt32_def
      validate_partition_def shl_u64_def)

lemma validate_loop_unions:
  "n \<le> 30 \<Longrightarrow> 0 \<le> u \<Longrightarrow> u < 2 ^ n \<Longrightarrow> \<forall>s\<in>set p. 0 \<le> s \<Longrightarrow>
   validate_loop (2 ^ n - 1) u p \<longleftrightarrow>
     (\<forall>k<length p. foldl (OR) u (take k p) AND p ! k = 0 \<and> p ! k \<le> 2 ^ n - 1)
     \<and> foldl (OR) u p = 2 ^ n - 1"
proof (induction p arbitrary: u)
  case Nil
  then show ?case by auto
next
  case (Cons s p)
  have n31: "n \<le> 31" using Cons.prems by simp
  have u31: "u < 2147483648"
    using Cons.prems(3) pow_le_31 [OF n31] by linarith
  have s0: "0 \<le> s" using Cons.prems by simp
  have andeq: "js_and u s = u AND s"
    using Cons.prems(2) u31 by (rule js_and_int)
  show ?case
  proof (cases "u AND s = 0 \<and> s \<le> 2 ^ n - 1")
    case False
    then have "\<not> validate_loop (2 ^ n - 1) u (s # p)"
      by (auto simp: andeq)
    moreover from False have "\<not> (\<forall>k<length (s # p).
        foldl (OR) u (take k (s # p)) AND (s # p) ! k = 0 \<and> (s # p) ! k \<le> 2 ^ n - 1)"
      by (auto simp: All_less_Suc2)
    ultimately show ?thesis by blast
  next
    case True
    then have disj: "u AND s = 0" and le: "s \<le> 2 ^ n - 1" by simp_all
    from le have slt: "s < 2 ^ n" by simp
    have oreq: "js_or u s = u OR s"
      using Cons.prems(2,3) s0 slt n31 by (rule js_or_int)
    have b: "0 \<le> u OR s" "u OR s < 2 ^ n"
      using Cons.prems(2,3) s0 slt by (simp_all add: OR_upper)
    have rest: "\<forall>s\<in>set p. 0 \<le> s" using Cons.prems by simp
    have "validate_loop (2 ^ n - 1) u (s # p) = validate_loop (2 ^ n - 1) (u OR s) p"
      using le by (simp only: validate_loop.simps andeq disj oreq) simp
    also note Cons.IH [OF Cons.prems(1) b rest]
    also have "((\<forall>k<length p. foldl (OR) (u OR s) (take k p) AND p ! k = 0 \<and> p ! k \<le> 2 ^ n - 1)
          \<and> foldl (OR) (u OR s) p = 2 ^ n - 1)
        \<longleftrightarrow> ((\<forall>k<length (s # p).
              foldl (OR) u (take k (s # p)) AND (s # p) ! k = 0 \<and> (s # p) ! k \<le> 2 ^ n - 1)
          \<and> foldl (OR) u (s # p) = 2 ^ n - 1)"
      using disj le by (simp add: All_less_Suc2)
    finally show ?thesis .
  qed
qed

lemma validate_loop_spec:
  "n \<le> 30 \<Longrightarrow> 0 \<le> u \<Longrightarrow> u < 2 ^ n \<Longrightarrow> \<forall>s\<in>set p. 0 < s \<Longrightarrow>
   validate_loop (2 ^ n - 1) u p = spec_validate_loop (2 ^ n - 1) u p"
proof (induction p arbitrary: u)
  case Nil
  then show ?case by simp
next
  case (Cons s p)
  have n31: "n \<le> 31" using Cons.prems by simp
  have u31: "u < 2147483648"
    using Cons.prems(3) pow_le_31 [OF n31] by linarith
  have s0: "0 \<le> s" "s \<noteq> 0" using Cons.prems by simp_all
  have andeq: "js_and u s = u AND s"
    using Cons.prems(2) u31 by (rule js_and_int)
  show ?case
  proof (cases "u AND s = 0 \<and> s \<le> 2 ^ n - 1")
    case False
    then show ?thesis using s0 by (auto simp: andeq)
  next
    case True
    then have disj: "u AND s = 0" and le: "s \<le> 2 ^ n - 1" by simp_all
    from le have slt: "s < 2 ^ n" by simp
    have oreq: "js_or u s = u OR s"
      using Cons.prems(2,3) s0(1) slt n31 by (rule js_or_int)
    have b: "0 \<le> u OR s" "u OR s < 2 ^ n"
      using Cons.prems(2,3) s0(1) slt by (simp_all add: OR_upper)
    have rest: "\<forall>s\<in>set p. 0 < s" using Cons.prems by simp
    have "validate_loop (2 ^ n - 1) u (s # p) = validate_loop (2 ^ n - 1) (u OR s) p"
      using le by (simp only: validate_loop.simps andeq disj oreq) simp
    also note Cons.IH [OF Cons.prems(1) b rest]
    also have "spec_validate_loop (2 ^ n - 1) (u OR s) p = spec_validate_loop (2 ^ n - 1) u (s # p)"
      using disj le s0(2) by simp
    finally show ?thesis .
  qed
qed

text \<open>
  Claim C4, as amended.  For every outcome count \<open>n \<le> 30\<close> and every partition of
  non-negative index sets, \<open>validatePartition\<close> accepts iff every index set, in order, is
  disjoint from the union of the index sets before it and is not above the mask
  \<open>2^n - 1\<close>, the union of all index sets equals that mask, and the partition has at least
  two index sets.  There is no check for an index set equal to 0; on partitions without
  one the verdict is that of the specification's validator.  Over 2 slots,
  \<open>[0b01, 0b10]\<close> is valid and \<open>[0b11]\<close>, \<open>[0b01, 0b01]\<close>, \<open>[0b11, 0b01]\<close>, \<open>[0b01]\<close> and
  \<open>[]\<close> are invalid.
\<close>

theorem validatePartition_accept_condition:
  assumes "n \<le> 30" and "\<forall>s\<in>set part. 0 \<le> s"
  shows "(validatePartition part n \<longleftrightarrow>
            (\<forall>k<length part. union_upto part k AND part ! k = 0 \<and> part ! k \<le> 2 ^ n - 1)
            \<and> union_upto part (length part) = 2 ^ n - 1 \<and> 2 \<le> length part)
    \<and> (0 \<notin> set part \<longrightarrow> validatePartition part n = spec_validate part n)
    \<and> validatePartition [1, 2] 2
    \<and> \<not> validatePartition [3] 2
    \<and> \<not> validatePartition [1, 1] 2
    \<and> \<not> validatePartition [3, 1] 2
    \<and> \<not> validatePartition [1] 2
    \<and> \<not> validatePartition [] 2"
proof -
  have full: "fullIndexSet n = 2 ^ n - 1"
    using assms(1) by (rule fullIndexSet_small)
  have len: "(length part = 0 \<or> length part = 1) \<longleftrightarrow> \<not> 2 \<le> length part" by arith
  have code: "validatePartition part n \<longleftrightarrow> validate_loop (2 ^ n - 1) 0 part \<and> 2 \<le> length part"
    unfolding validatePartition_def full len by auto
  have general: "validatePartition part n \<longleftrightarrow>
            (\<forall>k<length part. union_upto part k AND part ! k = 0 \<and> part ! k \<le> 2 ^ n - 1)
            \<and> union_upto part (length part) = 2 ^ n - 1 \<and> 2 \<le> length part"
    unfolding code union_upto_def
    using validate_loop_unions [OF assms(1) _ _ assms(2), of 0] by simp
  have spec: "validatePartition part n = spec_validate part n" if "0 \<notin> set part"
  proof -
    from that assms(2) have "\<forall>s\<in>set part. 0 < s"
      by (metis order_le_less)
    from validate_loop_spec [OF assms(1) _ _ this, of 0] show ?thesis
      unfolding code spec_validate_def by (simp add: push_bit_of_1)
  qed
  have full2: "fullIndexSet 2 = 3"
    by (simp add: fullIndexSet_def js_shl_def ToInt32_def)
  have "validatePartition [1, 2] 2"
    by (simp add: validatePartition_def full2 js_and_def js_or_def ToInt32_def)
  moreover have "\<not> validatePartition [3] 2" "\<not> validatePartition [1] 2" "\<not> validatePartition [] 2"
    by (simp_all add: validatePartition_def)
  moreover have "\<not> validatePartition [1, 1] 2" "\<not> validatePartition [3, 1] 2"
    by (simp_all add: validatePartition_def full2 js_and_def js_or_def ToInt32_def)
  ultimately show ?thesis using general spec by blast
qed

text \<open>
  At the partition \<open>[0b001, 0b110]\<close> over three slots, which the code accepts, the theorem
  gives back that the union of the two index sets is the mask \<open>0b111\<close> and that the
  specification's validator accepts as well.
\<close>

theorem validatePartition_accept_condition_witness:
  "union_upto [1, 6] (length [1, 6 :: int]) = 2 ^ 3 - 1 \<and> spec_validate [1, 6] 3"
proof -
  have v: "validatePartition [1, 6] 3"
    by (simp add: validatePartition_def fullIndexSet_def js_shl_def js_and_def js_or_def ToInt32_def)
  have "(3::nat) \<le> 30" "\<forall>s\<in>set [1, 6 :: int]. 0 \<le> s" by simp_all
  from validatePartition_accept_condition [OF this] v show ?thesis by simp
qed

text \<open>
  Claim C4 as stated fails.  Over 2 slots \<open>[0b11, 0]\<close> is accepted although its second
  index set does not pass the per-set check \<open>s == 0\<close> of the specification; over 34 slots
  \<open>[0b01, 0b10]\<close> is accepted although its union \<open>0b11\<close> is not the full mask \<open>2^34 - 1\<close>.
  The specification's validator rejects both.
\<close>

theorem validatePartition_accept_condition_counterexample:
  "validatePartition [3, 0] 2 \<and> \<not> spec_validate [3, 0] 2
   \<and> validatePartition [1, 2] 34 \<and> \<not> spec_validate [1, 2] 34
   \<and> union_upto [1, 2] (length [1, 2 :: int]) \<noteq> 2 ^ 34 - 1"
  by (simp add: validatePartition_def fullIndexSet_def js_shl_def js_and_def js_or_def ToInt32_def
      spec_validate_def union_upto_def)

section \<open>Index-set conversions\<close>

lemma indexSetToOutcomes_bits:
  "0 \<le> s \<Longrightarrow> s < 2147483648 \<Longrightarrow> indexSetToOutcomes s = filter (bit s) [0..<31]"
  using loop_bits [of s 31 0 "[]"] by (simp add: indexSetToOutcomes_def del: upt_Suc)

lemma pow_less_31: "k < 31 \<Longrightarrow> (2::int) ^ k < 2147483648"
  using power_strict_increasing [of k 31 "2::int"] by simp

lemma bit_ge_31: "0 \<le> s \<Longrightarrow> s < 2147483648 \<Longrightarrow> bit s i \<Longrightarrow> i < 31" for s :: int
proof -
  assume s: "0 \<le> s" "s < 2147483648" and b: "bit s i"
  from s have "take_bit 31 s = s" by (simp add: take_bit_int_eq_self)
  with b have "bit (take_bit 31 s) i" by simp
  then show "i < 31" by (simp add: bit_take_bit_iff)
qed

lemma outcomes_fold:
  "\<forall>idx\<in>set L. idx < 31 \<Longrightarrow> 0 \<le> acc \<Longrightarrow> acc < 2147483648 \<Longrightarrow>
   0 \<le> foldl (\<lambda>acc idx. js_or acc (js_shl 1 idx)) acc L
   \<and> foldl (\<lambda>acc idx. js_or acc (js_shl 1 idx)) acc L < 2147483648
   \<and> (\<forall>i. bit (foldl (\<lambda>acc idx. js_or acc (js_shl 1 idx)) acc L) i \<longleftrightarrow> bit acc i \<or> i \<in> set L)"
proof (induction L arbitrary: acc)
  case Nil
  then show ?case by simp
next
  case (Cons x L)
  then have x: "x < 31" by simp
  have p: "(0::int) \<le> 2 ^ x" "(2::int) ^ x < 2 ^ 31"
    using x pow_less_31 [of x] by simp_all
  have step: "js_or acc (js_shl 1 x) = acc OR 2 ^ x"
    using Cons.prems p by (simp add: js_shl_1 x js_or_int [where n = 31])
  have b: "0 \<le> acc OR 2 ^ x" "acc OR 2 ^ x < 2147483648"
    using Cons.prems p OR_upper [of acc 31 "2 ^ x"] by simp_all
  have "\<forall>idx\<in>set L. idx < 31" using Cons.prems by simp
  from Cons.IH [OF this b] show ?case
    by (auto simp: step bit_or_iff bit_exp_iff)
qed

lemma bits_filter_sorted: "sorted_wrt (<) (filter P [0..<n])"
  by (simp add: sorted_wrt_filter del: upt_Suc)

text \<open>
  Claim C10 (index-set conversion round trip).  For every index set \<open>s\<close> with
  \<open>0 \<le> s < 2^31\<close>, \<open>outcomesToIndexSet (indexSetToOutcomes s) = s\<close>, and
  \<open>indexSetToOutcomes s\<close> lists exactly the positions of the set bits of \<open>s\<close> in strictly
  increasing order.  For every list \<open>L\<close> of distinct outcome indices, each below 31,
  \<open>indexSetToOutcomes (outcomesToIndexSet L)\<close> is \<open>L\<close> sorted ascending.
\<close>

theorem index_set_round_trip:
  "(0 \<le> s \<and> s < 2 ^ 31 \<longrightarrow>
      outcomesToIndexSet (indexSetToOutcomes s) = s
      \<and> sorted_wrt (<) (indexSetToOutcomes s)
      \<and> set (indexSetToOutcomes s) = {i. bit s i})
   \<and> (distinct L \<and> (\<forall>idx\<in>set L. idx < 31) \<longrightarrow>
      indexSetToOutcomes (outcomesToIndexSet L) = sort L)"
proof (intro conjI impI)
  assume "0 \<le> s \<and> s < 2 ^ 31"
  then have s: "0 \<le> s" "s < 2147483648" by simp_all
  have eq: "indexSetToOutcomes s = filter (bit s) [0..<31]"
    using s by (rule indexSetToOutcomes_bits)
  show "sorted_wrt (<) (indexSetToOutcomes s)"
    unfolding eq by (rule bits_filter_sorted)
  show set_eq: "set (indexSetToOutcomes s) = {i. bit s i}"
    unfolding eq using bit_ge_31 [OF s] by auto
  have "\<forall>idx\<in>set (indexSetToOutcomes s). idx < 31"
    unfolding eq by auto
  from outcomes_fold [OF this, of 0]
  have r: "0 \<le> outcomesToIndexSet (indexSetToOutcomes s)"
    "\<forall>i. bit (outcomesToIndexSet (indexSetToOutcomes s)) i \<longleftrightarrow> i \<in> set (indexSetToOutcomes s)"
    by (simp_all add: outcomesToIndexSet_def)
  show "outcomesToIndexSet (indexSetToOutcomes s) = s"
    by (rule bit_eqI) (simp add: r set_eq)
next
  assume "distinct L \<and> (\<forall>idx\<in>set L. idx < 31)"
  then have L: "distinct L" "\<forall>idx\<in>set L. idx < 31" by simp_all
  from outcomes_fold [OF L(2), of 0]
  have r: "0 \<le> outcomesToIndexSet L" "outcomesToIndexSet L < 2147483648"
    "\<forall>i. bit (outcomesToIndexSet L) i \<longleftrightarrow> i \<in> set L"
    by (simp_all add: outcomesToIndexSet_def)
  have eq: "indexSetToOutcomes (outcomesToIndexSet L) = filter (\<lambda>i. i \<in> set L) [0..<31]"
  proof -
    from r(3) have "bit (outcomesToIndexSet L) = (\<lambda>i. i \<in> set L)" by (intro ext) simp
    with indexSetToOutcomes_bits [OF r(1,2)] show ?thesis by simp
  qed
  have "sorted (filter (\<lambda>i. i \<in> set L) [0..<31])" "distinct (filter (\<lambda>i. i \<in> set L) [0..<31])"
    by (simp_all add: sorted_wrt_filter del: upt_Suc)
  moreover have "set (filter (\<lambda>i. i \<in> set L) [0..<31]) = set (sort L)"
    using L(2) by auto
  moreover have "sorted (sort L)" "distinct (sort L)" using L(1) by simp_all
  ultimately show "indexSetToOutcomes (outcomesToIndexSet L) = sort L"
    unfolding eq by (intro sorted_distinct_set_unique)
qed

theorem index_set_round_trip_witness:
  "outcomesToIndexSet (indexSetToOutcomes 5) = 5
   \<and> indexSetToOutcomes 5 = [0, 2]
   \<and> indexSetToOutcomes (outcomesToIndexSet [2, 0]) = [0, 2]"
proof -
  have "indexSetToOutcomes 5 = [0, 2]"
    by (simp add: indexSetToOutcomes_def js_sar_def js_and_def ToInt32_def)
  moreover have "outcomesToIndexSet (indexSetToOutcomes 5) = 5"
    using index_set_round_trip [of 5 "[]"] by simp
  moreover have "indexSetToOutcomes (outcomesToIndexSet [2, 0]) = [0, 2]"
    using index_set_round_trip [of 0 "[2, 0]"] by simp
  ultimately show ?thesis by simp
qed

section \<open>Payout computation\<close>

lemma unat_lt_u64: "unat (x :: u64) < 18446744073709551616"
  using unsigned_less [of x, where 'a = nat] by simp

lemma unat_ucast_u128: "unat (ucast (x :: u64) :: u128) = unat x"
proof -
  have "unat x < 2 ^ 128"
    using unat_lt_u64 [of x] by simp
  then show ?thesis
    by (simp add: unsigned_ucast_eq take_bit_nat_eq_self)
qed

lemma unat_ucast_u64: "unat (q :: u128) < 18446744073709551616 \<Longrightarrow> unat (ucast q :: u64) = unat q"
  by (simp add: unsigned_ucast_eq take_bit_nat_eq_self)

lemma sum_from_ok:
  "unat acc + sum_list (map unat xs) < 18446744073709551616 \<Longrightarrow>
   \<exists>w. sum_from oc acc xs = Inr w \<and> unat w = unat acc + sum_list (map unat xs)"
proof (induction xs arbitrary: acc)
  case Nil
  then show ?case by simp
next
  case (Cons x xs)
  then have small: "unat acc + unat x < 2 ^ 64" by simp
  then have add: "add_u64 oc acc x = Inr (acc + x)"
    by (simp add: add_u64_def)
  from small have val: "unat (acc + x) = unat acc + unat x"
    using unat_add_lem [of acc x] by simp
  with Cons.prems have "unat (acc + x) + sum_list (map unat xs) < 18446744073709551616"
    by simp
  from Cons.IH [OF this] show ?case
    by (simp add: add val add.assoc)
qed

lemma selected_total_le: "selected_total numerators index_set \<le> sum_list (map unat numerators)"
proof -
  have "selected_total numerators index_set
      \<le> (\<Sum>i\<leftarrow>[0..<length numerators]. unat (numerators ! i))"
    unfolding selected_total_def by (rule sum_list_mono) simp
  also have "\<dots> = sum_list (map unat (map (\<lambda>i. numerators ! i) [0..<length numerators]))"
    by (simp add: comp_def)
  also have "\<dots> = sum_list (map unat numerators)"
    by (simp only: map_nth)
  finally show ?thesis .
qed

lemma payout_value:
  assumes "den \<noteq> 0" and "unat num \<le> unat den"
  shows "\<exists>p. payout amount num den = Inr p \<and> unat p = unat amount * unat num div unat den"
proof -
  let ?a = "ucast amount :: u128" and ?n = "ucast num :: u128" and ?d = "ucast den :: u128"
  have a: "unat ?a = unat amount" and n: "unat ?n = unat num" and d: "unat ?d = unat den"
    by (rule unat_ucast_u128)+
  have "unat amount * unat num < 18446744073709551616 * 18446744073709551616"
    using unat_lt_u64 [of amount] unat_lt_u64 [of num] by (intro mult_strict_mono) simp_all
  then have small: "unat ?a * unat ?n < 2 ^ 128"
    by (simp add: a n)
  then have mul: "checked_mul_u128 ?a ?n = Some (?a * ?n)"
    by (simp add: checked_mul_u128_def)
  from small have pv: "unat (?a * ?n) = unat amount * unat num"
    using unat_mult_lem [of ?a ?n] by (simp add: a n)
  have dz: "?d \<noteq> 0"
    using assms(1) d by (metis unat_eq_0)
  then have dv: "checked_div_u128 (?a * ?n) ?d = Some (?a * ?n div ?d)"
    by (simp add: checked_div_u128_def)
  have qv: "unat (?a * ?n div ?d) = unat amount * unat num div unat den"
    by (simp add: unat_div pv d)
  have "unat amount * unat num div unat den \<le> unat amount * unat den div unat den"
    using assms(2) by (intro div_le_mono mult_le_mono2)
  also have "\<dots> = unat amount"
    using assms(1) by (simp add: unat_eq_0)
  finally have "unat (?a * ?n div ?d) < 18446744073709551616"
    using unat_lt_u64 [of amount] by (simp add: qv)
  then have "unat (ucast (?a * ?n div ?d) :: u64) = unat amount * unat num div unat den"
    by (simp add: unat_ucast_u64 qv)
  then show ?thesis
    by (simp add: payout_def mul dv)
qed

text \<open>
  While the sum of the numerators is not zero and fits in 64 bits, the payout of an index
  set is \<open>floor (amount * numerator / denominator)\<close> in both build profiles: the 128-bit
  product cannot overflow and the quotient fits in 64 bits.  When all numerators are zero
  the division panics.
\<close>

lemma payoutFor_value:
  assumes "0 < sum_list (map unat numerators)"
    and "sum_list (map unat numerators) < 18446744073709551616"
  shows "\<exists>p. payoutFor oc numerators index_set amount = Inr p
     \<and> unat p = unat amount * selected_total numerators index_set div sum_list (map unat numerators)"
proof -
  from assms(2) sum_from_ok [of 0 numerators oc]
  obtain den where den: "sum_u64 oc numerators = Inr den" "unat den = sum_list (map unat numerators)"
    by (auto simp: sum_u64_def)
  have le: "selected_total numerators index_set \<le> sum_list (map unat numerators)"
    by (rule selected_total_le)
  with assms(2) have st: "selected_total numerators index_set < 18446744073709551616"
    by simp
  define num :: u64 where "num = of_nat (selected_total numerators index_set)"
  have numv: "unat num = selected_total numerators index_set"
    unfolding num_def using st by (simp add: unat_of_nat)
  have cn: "calculate_payout_numerator numerators index_set = Inr num"
    using st by (simp add: calculate_payout_numerator_def num_def)
  have "unat den \<noteq> 0" using assms(1) den(2) by linarith
  then have "den \<noteq> 0" by (simp add: unat_eq_0)
  moreover have "unat num \<le> unat den" using le by (simp add: numv den(2))
  ultimately obtain p where "payout amount num den = Inr p"
    "unat p = unat amount * unat num div unat den"
    using payout_value by blast
  then show ?thesis
    by (simp add: payoutFor_def den cn numv)
qed

lemma payoutFor_zero_sum:
  assumes "sum_list (map unat numerators) = 0"
  shows "payoutFor oc numerators index_set amount = Inl DivisionByZero"
proof -
  have "unat (0::u64) + sum_list (map unat numerators) < 18446744073709551616"
    by (simp only: assms) simp
  from sum_from_ok [OF this, of oc] assms
  obtain den where den: "sum_u64 oc numerators = Inr den" "unat den = 0"
    unfolding sum_u64_def by auto
  then have d0: "den = 0" by (simp add: unat_eq_0)
  have "selected_total numerators index_set = 0"
    using selected_total_le [of numerators index_set] assms by simp
  then have cn: "calculate_payout_numerator numerators index_set = Inr 0"
    by (simp add: calculate_payout_numerator_def)
  show ?thesis
    by (simp add: payoutFor_def den(1) d0 cn payout_def checked_mul_u128_def checked_div_u128_def)
qed

text \<open>
  Claim C5 (payout exactness) fails on the code.  The product and the quotient are computed
  in 128 bits with checked operations, but the denominator is summed in 64 bits by
  \<open>iter().sum()\<close>.  With the numerators \<open>[2^63, 2^63, 1]\<close>, which \<open>report_payout\<close> stores as
  any other vector, the sum \<open>2^64 + 1\<close> does not fit: without overflow checks it wraps to 1
  and redeeming 100 of the index set \<open>0b100\<close> pays 100, and with overflow checks the
  instruction panics, where the claimed payout is \<open>floor (100 * 1 / (2^64 + 1)) = 0\<close>.  The
  three vectors of the claim are computed as claimed.
\<close>

theorem payoutFor_denominator_overflow:
  "payoutFor False [9223372036854775808, 9223372036854775808, 1] 4 100 = Inr 100
   \<and> payoutFor True [9223372036854775808, 9223372036854775808, 1] 4 100 = Inl ArithmeticOverflow
   \<and> 100 * selected_total [9223372036854775808, 9223372036854775808, 1] 4
         div sum_list (map unat [9223372036854775808, 9223372036854775808, 1 :: u64]) = (0::nat)
   \<and> payoutFor overflow_checks [0, 1] 2 100 = Inr 100
   \<and> payoutFor overflow_checks [1, 1] 2 100 = Inr 50
   \<and> payoutFor overflow_checks [1, 1] 2 1 = Inr 0"
  by (simp add: payoutFor_def sum_u64_def add_u64_def calculate_payout_numerator_def
      selected_total_def payout_def checked_mul_u128_def checked_div_u128_def)

section \<open>Resolution\<close>

text \<open>
  Claim C6 (resolution finality) fails on \<open>report_payout\<close> as the guide gives it: the only
  check is the oracle's identity, so a second report by the oracle on a resolved condition
  succeeds and overwrites the stored payout vector.  Here a condition resolved with
  numerators \<open>[0, 1]\<close> is reported again with \<open>[1, 0]\<close>.
\<close>

theorem report_payout_second_report:
  "report_payout 7 [1, 0]
     \<lparr>oracle_key = 7, question_id = [], outcome_slot_count = 2, is_resolved = True,
       payout_numerators = [0, 1], condition_id = []\<rparr>
   = Inr \<lparr>oracle_key = 7, question_id = [], outcome_slot_count = 2, is_resolved = True,
       payout_numerators = [1, 0], condition_id = []\<rparr>"
  by (simp add: report_payout_def)

text \<open>
  Claim C7, as amended.  \<open>report_payout\<close> does not validate the payout vector: on an
  unresolved condition a report by the authorized oracle succeeds for every vector,
  whatever its length and entries, stores it as given and sets \<open>is_resolved\<close>; a report by
  any other signer fails with \<open>UnauthorizedOracle\<close>, which leaves the condition unchanged.
\<close>

theorem report_payout_no_vector_check:
  "(\<not> is_resolved c \<and> signer = oracle_key c \<longrightarrow>
      report_payout signer numerators c
        = Inr (c\<lparr>payout_numerators := numerators, is_resolved := True\<rparr>))
   \<and> (signer \<noteq> oracle_key c \<longrightarrow> report_payout signer numerators c = Inl UnauthorizedOracle)"
  by (simp add: report_payout_def)

theorem report_payout_no_vector_check_witness:
  "report_payout 7 [5, 0, 9]
     \<lparr>oracle_key = 7, question_id = [], outcome_slot_count = 3, is_resolved = False,
       payout_numerators = [], condition_id = []\<rparr>
   = Inr \<lparr>oracle_key = 7, question_id = [], outcome_slot_count = 3, is_resolved = True,
       payout_numerators = [5, 0, 9], condition_id = []\<rparr>
   \<and> report_payout 8 [5, 0, 9]
     \<lparr>oracle_key = 7, question_id = [], outcome_slot_count = 3, is_resolved = False,
       payout_numerators = [], condition_id = []\<rparr>
   = Inl UnauthorizedOracle"
  using report_payout_no_vector_check [of
      "\<lparr>oracle_key = 7, question_id = [], outcome_slot_count = 3, is_resolved = False,
        payout_numerators = [], condition_id = []\<rparr>" 7 "[5, 0, 9]"]
    report_payout_no_vector_check [of
      "\<lparr>oracle_key = 7, question_id = [], outcome_slot_count = 3, is_resolved = False,
        payout_numerators = [], condition_id = []\<rparr>" 8 "[5, 0, 9]"]
  by simp

text \<open>
  Claim C7 as stated fails: on an unresolved condition with two outcome slots the oracle's
  report of the all-zero vector \<open>[0, 0]\<close> and of the one-entry vector \<open>[1]\<close> both succeed.
\<close>

theorem report_payout_invalid_vector_counterexample:
  "report_payout 7 [0, 0]
     \<lparr>oracle_key = 7, question_id = [], outcome_slot_count = 2, is_resolved = False,
       payout_numerators = [], condition_id = []\<rparr>
   = Inr \<lparr>oracle_key = 7, question_id = [], outcome_slot_count = 2, is_resolved = True,
       payout_numerators = [0, 0], condition_id = []\<rparr>
   \<and> report_payout 7 [1]
     \<lparr>oracle_key = 7, question_id = [], outcome_slot_count = 2, is_resolved = False,
       payout_numerators = [], condition_id = []\<rparr>
   = Inr \<lparr>oracle_key = 7, question_id = [], outcome_slot_count = 2, is_resolved = True,
       payout_numerators = [1], condition_id = []\<rparr>"
  by (simp add: report_payout_def)

section \<open>Split and merge\<close>

lemma cover_count_Nil: "cover_count n [] i = 0"
  by (simp add: cover_count_def)

lemma cover_count_Cons:
  "cover_count n (s # part) i = (if covers n s i then 1 else 0) + cover_count n part i"
  by (simp add: cover_count_def)

lemma set_covered: "i \<in> set (covered n s) \<longleftrightarrow> covers n s i"
  by (auto simp: covered_def covers_def)

lemma mint_all_result:
  "mint_all n part payer a st = Inr st' \<Longrightarrow>
   st' = st\<lparr>supply_of := (\<lambda>i. supply_of st i + a * cover_count n part i),
            claims := (\<lambda>i p. if p = payer then claims st i p + a * cover_count n part i
                              else claims st i p)\<rparr>"
proof (induction part arbitrary: st)
  case Nil
  then show ?case by (cases st) (simp add: cover_count_Nil fun_eq_iff)
next
  case (Cons s part)
  from Cons.prems obtain st1 where m: "mint_claims n s payer a st = Inr st1"
    and r: "mint_all n part payer a st1 = Inr st'"
    by (auto split: sum.splits)
  from m have st1: "st1 = st\<lparr>
        supply_of := (\<lambda>i. if covers n s i then supply_of st i + a else supply_of st i),
        claims := (\<lambda>i p. if covers n s i \<and> p = payer
                           then claims st i p + a else claims st i p)\<rparr>"
    by (auto simp: mint_claims_def split: if_splits)
  show ?case
    unfolding Cons.IH [OF r] st1
    by (simp add: cover_count_Cons fun_eq_iff)
qed

lemma burn_all_result:
  "(\<And>i. a * cover_count n part i \<le> claims st i payer) \<Longrightarrow>
   (\<And>i. a * cover_count n part i \<le> supply_of st i) \<Longrightarrow>
   burn_all n part payer a st =
     Inr (st\<lparr>supply_of := (\<lambda>i. supply_of st i - a * cover_count n part i),
             claims := (\<lambda>i p. if p = payer then claims st i p - a * cover_count n part i
                               else claims st i p)\<rparr>)"
proof (induction part arbitrary: st)
  case Nil
  then show ?case by (cases st) (simp add: cover_count_Nil fun_eq_iff)
next
  case (Cons s part)
  define st1 where "st1 = st\<lparr>
        supply_of := (\<lambda>i. if covers n s i then supply_of st i - a else supply_of st i),
        claims := (\<lambda>i p. if covers n s i \<and> p = payer
                           then claims st i p - a else claims st i p)\<rparr>"
  have enough: "a \<le> claims st i payer \<and> a \<le> supply_of st i" if "covers n s i" for i
    using Cons.prems(1) [of i] Cons.prems(2) [of i] that by (simp add: cover_count_Cons)
  then have b: "burn_claims n s payer a st = Inr st1"
    by (simp add: burn_claims_def set_covered st1_def)
  have c: "a * cover_count n part i \<le> claims st1 i payer" for i
    using Cons.prems(1) [of i]
    by (cases "covers n s i") (simp_all add: st1_def cover_count_Cons distrib_left)
  have d: "a * cover_count n part i \<le> supply_of st1 i" for i
    using Cons.prems(2) [of i]
    by (cases "covers n s i") (simp_all add: st1_def cover_count_Cons distrib_left)
  show ?case
    by (simp add: b Cons.IH [OF c d]) (simp add: st1_def cover_count_Cons fun_eq_iff distrib_left)
qed

lemma split_then_merge:
  assumes "split oc c asset a part payer st = Inr st'"
  shows "merge oc c asset a part payer st' = Inr st"
proof -
  let ?n = "unat (outcome_slot_count c)"
  let ?p = "map unat part"
  define st0 where "st0 = st\<lparr>balances := (balances st)(asset :=
                     (balances st asset)(payer := balances st asset payer - a)),
                  vault := (vault st)(asset := vault st asset + a)\<rparr>"
  from assms have v: "validate_partition oc part (outcome_slot_count c) = Some True"
    and funds: "a \<le> balances st asset payer"
    and m: "mint_all ?n ?p payer a st0 = Inr st'"
    by (auto simp: split_def st0_def split: if_splits option.splits)
  note st' = mint_all_result [OF m]
  have "burn_all ?n ?p payer a st' =
     Inr (st'\<lparr>supply_of := (\<lambda>i. supply_of st' i - a * cover_count ?n ?p i),
             claims := (\<lambda>i p. if p = payer then claims st' i p - a * cover_count ?n ?p i
                               else claims st' i p)\<rparr>)"
    by (rule burn_all_result) (simp_all add: st')
  also have "st'\<lparr>supply_of := (\<lambda>i. supply_of st' i - a * cover_count ?n ?p i),
             claims := (\<lambda>i p. if p = payer then claims st' i p - a * cover_count ?n ?p i
                               else claims st' i p)\<rparr> = st0"
    by (simp add: st' fun_eq_iff)
  finally have b: "burn_all ?n ?p payer a st' = Inr st0" .
  have "st0\<lparr>vault := (vault st0)(asset := vault st0 asset - a),
            balances := (balances st0)(asset :=
               (balances st0 asset)(payer := balances st0 asset payer + a))\<rparr> = st"
    using funds by (simp add: st0_def fun_eq_iff)
  then show ?thesis
    by (simp add: merge_def v b) (simp add: st0_def)
qed

text \<open>
  The index sets of a partition that passes the loop of \<open>validate_partition\<close> are pairwise
  disjoint: no outcome slot is covered twice, whatever the mask.
\<close>

lemma validate_partition_loop_disjoint:
  "validate_partition_loop full u part \<Longrightarrow>
   cover_count n (map unat part) i + (if bit u i then 1 else 0) \<le> 1"
proof (induction part arbitrary: u)
  case Nil
  then show ?case by (simp add: cover_count_Nil)
next
  case (Cons s part)
  from Cons.prems have disj: "u AND ucast s = 0"
    and rest: "validate_partition_loop full (u OR ucast s) part"
    by (auto simp: Let_def split: if_splits)
  note IH = Cons.IH [OF rest]
  show ?case
  proof (cases "bit s i")
    case True
    then have "i < 8" using bit_imp_le_length [of s i] by simp
    with True have bs: "bit (ucast s :: u64) i" by (simp add: bit_ucast_iff)
    have "\<not> bit u i"
    proof
      assume "bit u i"
      with bs have "bit (u AND ucast s) i" by (simp only: bit_and_iff simp_thms)
      then show False by (simp add: disj)
    qed
    moreover from bs IH have "cover_count n (map unat part) i = 0"
      by (simp add: bit_or_iff)
    ultimately show ?thesis by (simp add: cover_count_Cons)
  next
    case False
    then have "\<not> covers n (unat s) i" by (simp add: covers_def bit_unsigned_iff)
    with IH show ?thesis
      by (simp add: cover_count_Cons bit_or_iff split: if_splits)
  qed
qed

lemma validate_partition_cover_le:
  assumes "validate_partition oc part slot_count = Some True"
  shows "cover_count n (map unat part) i \<le> 1"
proof -
  from assms obtain shifted where "validate_partition_loop (shifted - 1) 0 part"
    by (auto simp: validate_partition_def split: if_splits option.splits)
  from validate_partition_loop_disjoint [OF this, of n i] show ?thesis by simp
qed

lemma mint_all_ok:
  "(\<And>i. i < n \<Longrightarrow> supply_of st i + a * cover_count n part i \<le> u64_max) \<Longrightarrow>
   \<exists>st'. mint_all n part payer a st = Inr st'"
proof (induction part arbitrary: st)
  case Nil
  then show ?case by simp
next
  case (Cons s part)
  define st1 where "st1 = st\<lparr>
        supply_of := (\<lambda>i. if covers n s i then supply_of st i + a else supply_of st i),
        claims := (\<lambda>i p. if covers n s i \<and> p = payer
                           then claims st i p + a else claims st i p)\<rparr>"
  have "supply_of st i + a \<le> u64_max" if "covers n s i" for i
    using Cons.prems [of i] that by (simp add: cover_count_Cons distrib_left covers_def)
  then have m: "mint_claims n s payer a st = Inr st1"
    by (simp add: mint_claims_def set_covered st1_def)
  have "supply_of st1 i + a * cover_count n part i \<le> u64_max" if "i < n" for i
    using Cons.prems [OF that]
    by (cases "covers n s i") (simp_all add: st1_def cover_count_Cons distrib_left)
  from Cons.IH [OF this] show ?case by (simp add: m)
qed

lemma split_succeeds:
  assumes "0 < a" and "validate_partition oc part (outcome_slot_count c) = Some True"
    and "a \<le> balances st asset payer" and "vault st asset + a \<le> u64_max"
    and "\<forall>i<unat (outcome_slot_count c). supply_of st i + a \<le> u64_max"
  shows "\<exists>st'. split oc c asset a part payer st = Inr st'"
proof -
  let ?n = "unat (outcome_slot_count c)"
  define st0 where "st0 = st\<lparr>balances := (balances st)(asset :=
                     (balances st asset)(payer := balances st asset payer - a)),
                  vault := (vault st)(asset := vault st asset + a)\<rparr>"
  have "supply_of st0 i + a * cover_count ?n (map unat part) i \<le> u64_max" if "i < ?n" for i
  proof -
    have cc: "cover_count ?n (map unat part) i = 0 \<or> cover_count ?n (map unat part) i = 1"
      using validate_partition_cover_le [OF assms(2), of ?n i] by arith
    from assms(5) that have le: "supply_of st i + a \<le> u64_max" by simp
    then have le0: "supply_of st i \<le> u64_max" by simp
    from cc le le0 show ?thesis by (auto simp: st0_def)
  qed
  from mint_all_ok [OF this] obtain st' where "mint_all ?n (map unat part) payer a st0 = Inr st'"
    by blast
  with assms(1-4) show ?thesis
    by (simp add: split_def st0_def)
qed

text \<open>
  A partition of \<open>u8\<close> index sets that the specification's validator accepts is accepted by
  the program's \<open>validate_partition\<close> in both build profiles; it has at most eight slots.
\<close>

lemma uint_ucast_u8: "uint (ucast (s :: u8) :: u64) = uint s"
  by (simp add: uint_up_ucast is_up)

lemma uint_u8_lt: "uint (s :: u8) < 256"
  using uint_bounded [of s] by simp

lemma uint_full: "n \<le> 8 \<Longrightarrow> uint (2 ^ n - 1 :: u64) = 2 ^ n - 1"
proof -
  assume n: "n \<le> 8"
  have "(2 ^ n - 1 :: u64) = mask n"
    by (simp add: mask_eq_exp_minus_1)
  moreover have "uint (mask n :: u64) = mask n"
    using n by (simp add: uint_mask_eq min_def)
  ultimately show ?thesis by (simp add: mask_eq_exp_minus_1)
qed

lemma spec_loop_low:
  "spec_validate_loop full u (map uint (part :: u8 list)) \<Longrightarrow> 0 \<le> u \<Longrightarrow> u < 256 \<Longrightarrow> full < 256"
proof (induction part arbitrary: u)
  case Nil
  then show ?case by simp
next
  case (Cons s part)
  from Cons.prems(1) have rest: "spec_validate_loop full (u OR uint s) (map uint part)"
    by (auto split: if_splits)
  have "u < 2 ^ 8" "uint s < 2 ^ 8"
    using Cons.prems(3) uint_u8_lt [of s] by simp_all
  with Cons.prems(2) have "u OR uint s < 2 ^ 8" by (intro OR_upper)
  moreover have "0 \<le> u OR uint s" using Cons.prems(2) by simp
  ultimately have "0 \<le> u OR uint s" "u OR uint s < 256" by simp_all
  with rest show ?case by (rule Cons.IH)
qed

lemma spec_loop_code:
  "n \<le> 8 \<Longrightarrow> spec_validate_loop (2 ^ n - 1) (uint u) (map uint part) \<Longrightarrow>
   validate_partition_loop (push_bit n 1 - 1) u part"
proof (induction part arbitrary: u)
  case Nil
  then have "uint u = uint (2 ^ n - 1 :: u64)" by (simp add: uint_full)
  then show ?case by (simp add: word_uint_eq_iff push_bit_of_1)
next
  case (Cons s part)
  from Cons.prems(2) have disj: "uint u AND uint s = 0" and le: "uint s \<le> 2 ^ n - 1"
    and rest: "spec_validate_loop (2 ^ n - 1) (uint u OR uint s) (map uint part)"
    by (auto split: if_splits)
  let ?x = "ucast s :: u64"
  have x: "uint ?x = uint s" by (rule uint_ucast_u8)
  have "uint (u AND ?x) = 0" by (simp add: uint_and x disj)
  then have d: "u AND ?x = 0" by (simp add: word_uint_eq_iff)
  have l: "\<not> ?x > push_bit n 1 - 1"
    using le by (simp add: word_less_def uint_full [OF Cons.prems(1)] x push_bit_of_1)
  have "uint (u OR ?x) = uint u OR uint s" by (simp add: uint_or x)
  with rest have "spec_validate_loop (2 ^ n - 1) (uint (u OR ?x)) (map uint part)" by simp
  from Cons.IH [OF Cons.prems(1) this] d l show ?case
    by (simp add: Let_def)
qed

lemma spec_valid_accepted:
  assumes "spec_validate (map uint part) (unat n)"
  shows "validate_partition oc part n = Some True"
proof -
  from assms have loop: "spec_validate_loop (2 ^ unat n - 1) 0 (map uint part)"
    and len: "2 \<le> length part"
    by (simp_all add: spec_validate_def push_bit_of_1)
  from spec_loop_low [OF loop] have "(2::int) ^ unat n - 1 < 256" by simp
  then have "(2::int) ^ unat n < 2 ^ 9" by simp
  then have "unat n < 9" by (simp only: power_strict_increasing_iff)
  then have n8: "unat n \<le> 8" by simp
  from loop have "spec_validate_loop (2 ^ unat n - 1) (uint (0::u64)) (map uint part)" by simp
  from spec_loop_code [OF n8 this] have "validate_partition_loop (push_bit (unat n) 1 - 1) 0 part" .
  moreover from len have "part \<noteq> []" "length part \<noteq> 1" by auto
  ultimately show ?thesis using n8
    by (simp add: validate_partition_def shl_u64_def)
qed

text \<open>
  Claim C8 (Split/Merge inverse law).  Whenever a split with amount \<open>a\<close> and partition \<open>P\<close>
  succeeds, the merge with the same amount, partition, collateral asset and payer succeeds
  on the resulting ledgers and restores the ledgers before the split exactly: the vault
  balance, every supply, and the payer's collateral and claims.  For every partition that
  the program's \<open>validate_partition\<close> accepts and every amount \<open>a > 0\<close> that the payer holds
  and that overflows neither the vault nor a supply, the split does succeed.  The
  partitions that \<open>validate_partition\<close> accepts include every partition that is valid in
  the sense of the specification.
\<close>

theorem split_merge_inverse:
  "(split oc c asset a part payer st = Inr st' \<longrightarrow> merge oc c asset a part payer st' = Inr st)
   \<and> (0 < a \<and> validate_partition oc part (outcome_slot_count c) = Some True
        \<and> a \<le> balances st asset payer \<and> vault st asset + a \<le> u64_max
        \<and> (\<forall>i<unat (outcome_slot_count c). supply_of st i + a \<le> u64_max)
      \<longrightarrow> (\<exists>st1. split oc c asset a part payer st = Inr st1
             \<and> merge oc c asset a part payer st1 = Inr st))
   \<and> (spec_validate (map uint part) (unat (outcome_slot_count c))
      \<longrightarrow> validate_partition oc part (outcome_slot_count c) = Some True)"
proof (intro conjI impI)
  assume "split oc c asset a part payer st = Inr st'"
  then show "merge oc c asset a part payer st' = Inr st" by (rule split_then_merge)
next
  assume "spec_validate (map uint part) (unat (outcome_slot_count c))"
  then show "validate_partition oc part (outcome_slot_count c) = Some True"
    by (rule spec_valid_accepted)
next
  assume "0 < a \<and> validate_partition oc part (outcome_slot_count c) = Some True
        \<and> a \<le> balances st asset payer \<and> vault st asset + a \<le> u64_max
        \<and> (\<forall>i<unat (outcome_slot_count c). supply_of st i + a \<le> u64_max)"
  then have "\<exists>st1. split oc c asset a part payer st = Inr st1"
    by (intro split_succeeds) simp_all
  then obtain st1 where s: "split oc c asset a part payer st = Inr st1" by blast
  from split_then_merge [OF s] s show "\<exists>st1. split oc c asset a part payer st = Inr st1
             \<and> merge oc c asset a part payer st1 = Inr st" by blast
qed

text \<open>
  A split of 100 with the binary partition by a payer holding 1000, on a binary condition
  with empty ledgers, followed by the same merge.
\<close>

lemma validate_partition_binary: "validate_partition oc [1, 2] 2 = Some True"
  by (simp add: validate_partition_def shl_u64_def)

theorem split_merge_inverse_witness:
  "\<exists>st1. split True \<lparr>oracle_key = 7, question_id = [], outcome_slot_count = 2, is_resolved = False,
             payout_numerators = [], condition_id = []\<rparr> 5 100 [1, 2] 9
            (initial_ledger (\<lambda>_ _. 1000)) = Inr st1
     \<and> merge True \<lparr>oracle_key = 7, question_id = [], outcome_slot_count = 2, is_resolved = False,
             payout_numerators = [], condition_id = []\<rparr> 5 100 [1, 2] 9 st1
          = Inr (initial_ledger (\<lambda>_ _. 1000))"
proof -
  let ?c = "\<lparr>oracle_key = 7, question_id = [], outcome_slot_count = 2, is_resolved = False,
             payout_numerators = [], condition_id = []\<rparr>"
  have v: "validate_partition True [1, 2] (outcome_slot_count ?c) = Some True"
    using validate_partition_binary [of True] by simp
  have "(0::nat) < 100" "100 \<le> balances (initial_ledger (\<lambda>_ _. 1000)) 5 9"
    "vault (initial_ledger (\<lambda>_ _. 1000)) 5 + 100 \<le> u64_max"
    "\<forall>i<unat (outcome_slot_count ?c). supply_of (initial_ledger (\<lambda>_ _. 1000)) i + 100 \<le> u64_max"
    by (simp_all add: initial_ledger_def u64_max_def)
  with v split_merge_inverse [of True ?c 5 100 "[1, 2]" 9 "initial_ledger (\<lambda>_ _. 1000)"]
  show ?thesis by blast
qed

section \<open>Conservation\<close>

lemma burn_all_Inr:
  "burn_all n part payer a st = Inr st' \<Longrightarrow>
   (\<forall>i. a * cover_count n part i \<le> supply_of st i)
   \<and> supply_of st' = (\<lambda>i. supply_of st i - a * cover_count n part i)
   \<and> vault st' = vault st"
proof (induction part arbitrary: st)
  case Nil
  then show ?case by (simp add: cover_count_Nil)
next
  case (Cons s part)
  from Cons.prems obtain st1 where b: "burn_claims n s payer a st = Inr st1"
    and r: "burn_all n part payer a st1 = Inr st'"
    by (auto split: sum.splits)
  from b have ok: "\<forall>i\<in>set (covered n s). a \<le> supply_of st i"
    and st1: "supply_of st1 = (\<lambda>i. if covers n s i then supply_of st i - a else supply_of st i)"
      "vault st1 = vault st"
    by (auto simp: burn_claims_def split: if_splits)
  note IH = Cons.IH [OF r]
  have "a * cover_count n (s # part) i \<le> supply_of st i" for i
  proof (cases "covers n s i")
    case True
    with ok have "a \<le> supply_of st i" by (simp add: set_covered)
    moreover from IH have "a * cover_count n part i \<le> supply_of st1 i" by blast
    ultimately show ?thesis using True by (simp add: st1 cover_count_Cons distrib_left)
  next
    case False
    moreover from IH have "a * cover_count n part i \<le> supply_of st1 i" by blast
    ultimately show ?thesis by (simp add: st1 cover_count_Cons)
  qed
  moreover have "supply_of st' = (\<lambda>i. supply_of st i - a * cover_count n (s # part) i)"
    using IH by (simp add: st1 cover_count_Cons fun_eq_iff distrib_left)
  moreover have "vault st' = vault st" using IH st1 by simp
  ultimately show ?case by blast
qed

text \<open>The full single-bit partition covers every outcome slot exactly once.\<close>

lemma cover_count_full_single_bit:
  assumes "full_single_bit part n" and "i < n"
  shows "cover_count n (map unat part) i = 1"
proof -
  have "cover_count n (map unat part) i
      = length (filter (\<lambda>s. covers n s i) (map (\<lambda>j. 2 ^ j) [0..<n]))"
    using assms(1) by (simp add: cover_count_def full_single_bit_def)
  also have "\<dots> = length (filter (\<lambda>j. i = j) [0..<n])"
    using assms(2) by (simp add: filter_map comp_def covers_def bit_exp_iff)
  also have "\<dots> = card ({j. i = j} \<inter> set [0..<n])"
    by (rule distinct_length_filter) simp
  also have "{j. i = j} \<inter> set [0..<n] = {i}"
    using assms(2) by auto
  finally show ?thesis by simp
qed

lemma split_effect:
  assumes "split oc c asset a part payer st = Inr st'"
    and "full_single_bit part (unat (outcome_slot_count c))"
    and "i < unat (outcome_slot_count c)"
  shows "vault st' = (vault st)(asset := vault st asset + a)"
    and "supply_of st' i = supply_of st i + a"
    and "balances st' = (balances st)(asset :=
           (balances st asset)(payer := balances st asset payer - a))"
proof -
  let ?n = "unat (outcome_slot_count c)"
  define st0 where "st0 = st\<lparr>balances := (balances st)(asset :=
                     (balances st asset)(payer := balances st asset payer - a)),
                  vault := (vault st)(asset := vault st asset + a)\<rparr>"
  from assms(1) have m: "mint_all ?n (map unat part) payer a st0 = Inr st'"
    by (auto simp: split_def st0_def split: if_splits option.splits)
  note st' = mint_all_result [OF m]
  show "vault st' = (vault st)(asset := vault st asset + a)"
    by (subst st') (simp add: st0_def)
  show "balances st' = (balances st)(asset :=
           (balances st asset)(payer := balances st asset payer - a))"
    by (subst st') (simp add: st0_def)
  show "supply_of st' i = supply_of st i + a"
    by (subst st') (simp add: st0_def cover_count_full_single_bit [OF assms(2,3)])
qed

lemma merge_effect:
  assumes "merge oc c asset a part payer st = Inr st'"
    and "full_single_bit part (unat (outcome_slot_count c))"
    and "i < unat (outcome_slot_count c)"
  shows "vault st' = (vault st)(asset := vault st asset - a)"
    and "supply_of st' i = supply_of st i - a"
    and "a \<le> vault st asset" and "a \<le> supply_of st i"
proof -
  let ?n = "unat (outcome_slot_count c)"
  from assms(1) obtain st1 where
    b: "burn_all ?n (map unat part) payer a st = Inr st1"
    and enough: "a \<le> vault st1 asset"
    and st': "st' = st1\<lparr>
            vault := (vault st1)(asset := vault st1 asset - a),
            balances := (balances st1)(asset :=
               (balances st1 asset)(payer := balances st1 asset payer + a))\<rparr>"
    by (auto simp: merge_def split: if_splits sum.splits option.splits)
  note r = burn_all_Inr [OF b]
  note one = cover_count_full_single_bit [OF assms(2,3)]
  from r have vs: "vault st1 = vault st" by blast
  from r have ss: "supply_of st1 = (\<lambda>i. supply_of st i - a * cover_count ?n (map unat part) i)" by blast
  from r have le: "a * cover_count ?n (map unat part) i \<le> supply_of st i" by blast
  show "vault st' = (vault st)(asset := vault st asset - a)"
    by (simp add: st' vs)
  show "supply_of st' i = supply_of st i - a"
    by (simp add: st' ss one)
  show "a \<le> vault st asset" using enough by (simp add: vs)
  show "a \<le> supply_of st i"
    using le by (simp add: one)
qed

lemma apply_op_invariant:
  assumes "op_asset x = asset"
    and "full_single_bit (op_partition x) (unat (outcome_slot_count c))"
    and "\<forall>i<unat (outcome_slot_count c). supply_of st i = vault st asset"
  shows "\<forall>i<unat (outcome_slot_count c).
           supply_of (apply_op oc c st x) i = vault (apply_op oc c st x) asset"
proof (cases x)
  case (Split as a part payer)
  with assms(1,2) have as: "as = asset"
    and fp: "full_single_bit part (unat (outcome_slot_count c))" by simp_all
  show ?thesis
  proof (cases "split oc c asset a part payer st")
    case (Inl e)
    with assms(3) show ?thesis by (simp add: Split as)
  next
    case (Inr st')
    from split_effect(1,2) [OF Inr fp] assms(3) show ?thesis
      by (simp add: Split as Inr)
  qed
next
  case (Merge as a part payer)
  with assms(1,2) have as: "as = asset"
    and fp: "full_single_bit part (unat (outcome_slot_count c))" by simp_all
  show ?thesis
  proof (cases "merge oc c asset a part payer st")
    case (Inl e)
    with assms(3) show ?thesis by (simp add: Merge as)
  next
    case (Inr st')
    from merge_effect(1,2) [OF Inr fp] assms(3) show ?thesis
      by (simp add: Merge as Inr)
  qed
qed

lemma run_invariant:
  "\<forall>x\<in>set ops. op_asset x = asset
       \<and> full_single_bit (op_partition x) (unat (outcome_slot_count c)) \<Longrightarrow>
   \<forall>i<unat (outcome_slot_count c). supply_of st i = vault st asset \<Longrightarrow>
   \<forall>i<unat (outcome_slot_count c). supply_of (run oc c ops st) i = vault (run oc c ops st) asset"
proof (induction ops arbitrary: st)
  case Nil
  then show ?case by (simp add: run_def)
next
  case (Cons x ops)
  have "\<forall>i<unat (outcome_slot_count c).
      supply_of (apply_op oc c st x) i = vault (apply_op oc c st x) asset"
    using Cons.prems by (intro apply_op_invariant) simp_all
  with Cons.IH [of "apply_op oc c st x"] Cons.prems(1) show ?case
    by (simp add: run_def)
qed

lemma total_supply_Some: "total_supply (map (\<lambda>i. Some (f i)) xs) = sum_list (map f xs)"
  by (induction xs) simp_all

lemma full_single_bit_binary: "full_single_bit [1, 2] 2"
proof -
  have "[0..<2] = [0, Suc 0]" by (simp add: numeral_2_eq_2)
  then show ?thesis by (simp add: full_single_bit_def)
qed

text \<open>
  One split of 100 with the binary partition \<open>[0b01, 0b10]\<close>, by a payer holding 1000, on a
  binary condition with empty ledgers.
\<close>

lemma split_binary_100:
  "\<exists>st'. split True \<lparr>oracle_key = 7, question_id = [], outcome_slot_count = 2, is_resolved = False,
             payout_numerators = [], condition_id = []\<rparr> 5 100 [1, 2] 9
            (initial_ledger (\<lambda>_ _. 1000)) = Inr st'"
proof (rule split_succeeds)
  show "validate_partition True [1, 2] (outcome_slot_count \<lparr>oracle_key = 7, question_id = [],
      outcome_slot_count = 2, is_resolved = False, payout_numerators = [], condition_id = []\<rparr>)
      = Some True"
    using validate_partition_binary [of True] by simp
qed (simp_all add: initial_ledger_def u64_max_def)

lemma run_binary_split:
  "vault (run True \<lparr>oracle_key = 7, question_id = [], outcome_slot_count = 2, is_resolved = False,
             payout_numerators = [], condition_id = []\<rparr>
           [Split 5 100 [1, 2] 9] (initial_ledger (\<lambda>_ _. 1000))) 5 = 100
   \<and> supply_of (run True \<lparr>oracle_key = 7, question_id = [], outcome_slot_count = 2,
             is_resolved = False, payout_numerators = [], condition_id = []\<rparr>
           [Split 5 100 [1, 2] 9] (initial_ledger (\<lambda>_ _. 1000))) 0 = 100
   \<and> supply_of (run True \<lparr>oracle_key = 7, question_id = [], outcome_slot_count = 2,
             is_resolved = False, payout_numerators = [], condition_id = []\<rparr>
           [Split 5 100 [1, 2] 9] (initial_ledger (\<lambda>_ _. 1000))) 1 = 100
   \<and> vault_account True \<lparr>oracle_key = 7, question_id = [], outcome_slot_count = 2,
             is_resolved = False, payout_numerators = [], condition_id = []\<rparr> 5
           [Split 5 100 [1, 2] 9] (initial_ledger (\<lambda>_ _. 1000)) = Some 100"
proof -
  let ?c = "\<lparr>oracle_key = 7, question_id = [], outcome_slot_count = 2, is_resolved = False,
             payout_numerators = [], condition_id = []\<rparr>"
  let ?st = "initial_ledger (\<lambda>_ _. 1000)"
  from split_binary_100 obtain st' where s: "split True ?c 5 100 [1, 2] 9 ?st = Inr st'" by blast
  have r: "run True ?c [Split 5 100 [1, 2] 9] ?st = st'"
    unfolding run_def
    by (simp only: foldl.simps apply_op.simps s sum.case)
  have fp: "full_single_bit [1, 2] (unat (outcome_slot_count ?c))"
    using full_single_bit_binary by simp
  have v: "vault st' 5 = 100"
    using split_effect(1) [OF s fp, of 0] by (simp add: initial_ledger_def)
  have "supply_of st' 0 = 100" "supply_of st' 1 = 100"
    using split_effect(2) [OF s fp, of 0] split_effect(2) [OF s fp, of 1]
    by (simp_all add: initial_ledger_def)
  moreover have "vault_account True ?c 5 [Split 5 100 [1, 2] 9] ?st = Some 100"
    unfolding vault_account_def r by (simp add: s v)
  ultimately show ?thesis unfolding r using v by simp
qed

text \<open>
  After a second split of 100 of another collateral asset, each outcome supply is 200 while
  the vault of the first asset still holds 100.
\<close>

lemma run_two_assets:
  "vault (run True \<lparr>oracle_key = 7, question_id = [], outcome_slot_count = 2, is_resolved = False,
             payout_numerators = [], condition_id = []\<rparr>
           [Split 5 100 [1, 2] 9, Split 6 100 [1, 2] 9] (initial_ledger (\<lambda>_ _. 1000))) 5 = 100
   \<and> supply_of (run True \<lparr>oracle_key = 7, question_id = [], outcome_slot_count = 2,
             is_resolved = False, payout_numerators = [], condition_id = []\<rparr>
           [Split 5 100 [1, 2] 9, Split 6 100 [1, 2] 9] (initial_ledger (\<lambda>_ _. 1000))) 0 = 200"
proof -
  let ?c = "\<lparr>oracle_key = 7, question_id = [], outcome_slot_count = 2, is_resolved = False,
             payout_numerators = [], condition_id = []\<rparr>"
  let ?st = "initial_ledger (\<lambda>_ _. 1000)"
  from split_binary_100 obtain st1 where s1: "split True ?c 5 100 [1, 2] 9 ?st = Inr st1" by blast
  have fp: "full_single_bit [1, 2] (unat (outcome_slot_count ?c))"
    using full_single_bit_binary by simp
  have v1: "vault st1 = (\<lambda>_. 0)(5 := 100)"
    using split_effect(1) [OF s1 fp, of 0] by (simp add: initial_ledger_def)
  have su1: "\<forall>i<unat (outcome_slot_count ?c). supply_of st1 i = 100"
    using split_effect(2) [OF s1 fp] by (simp add: initial_ledger_def)
  have b1: "balances st1 6 9 = 1000"
    using split_effect(3) [OF s1 fp, of 0] by (simp add: initial_ledger_def)
  have "\<exists>st2. split True ?c 6 100 [1, 2] 9 st1 = Inr st2"
  proof (rule split_succeeds)
    show "validate_partition True [1, 2] (outcome_slot_count ?c) = Some True"
      using validate_partition_binary [of True] by simp
    show "\<forall>i<unat (outcome_slot_count ?c). supply_of st1 i + 100 \<le> u64_max"
      using su1 by (simp add: u64_max_def)
  qed (simp_all add: v1 b1 u64_max_def)
  then obtain st2 where s2: "split True ?c 6 100 [1, 2] 9 st1 = Inr st2" by blast
  have r: "run True ?c [Split 5 100 [1, 2] 9, Split 6 100 [1, 2] 9] ?st = st2"
    unfolding run_def
    by (simp only: foldl.simps apply_op.simps s1 s2 sum.case)
  have "vault st2 5 = 100"
    using split_effect(1) [OF s2 fp, of 0] by (simp add: v1)
  moreover have "supply_of st2 0 = 200"
    using split_effect(2) [OF s2 fp, of 0] su1 by simp
  ultimately show ?thesis unfolding r by simp
qed

text \<open>
  Claim C1 as stated fails.  After one split of 100 with the full partition of a binary
  condition the vault holds 100 and each of the two outcome supplies is 100, so the
  supplies sum to 200; the SDK's own check accepts exactly this state.  With splits of a
  second collateral asset a supply exceeds the vault balance of the first asset.
\<close>

theorem conservation_counterexample:
  "vault (run True \<lparr>oracle_key = 7, question_id = [], outcome_slot_count = 2, is_resolved = False,
             payout_numerators = [], condition_id = []\<rparr>
           [Split 5 100 [1, 2] 9] (initial_ledger (\<lambda>_ _. 1000))) 5 = 100
   \<and> supply_of (run True \<lparr>oracle_key = 7, question_id = [], outcome_slot_count = 2,
             is_resolved = False, payout_numerators = [], condition_id = []\<rparr>
           [Split 5 100 [1, 2] 9] (initial_ledger (\<lambda>_ _. 1000))) 0
     + supply_of (run True \<lparr>oracle_key = 7, question_id = [], outcome_slot_count = 2,
             is_resolved = False, payout_numerators = [], condition_id = []\<rparr>
           [Split 5 100 [1, 2] 9] (initial_ledger (\<lambda>_ _. 1000))) 1 = 200
   \<and> full_single_bit [1, 2] 2
   \<and> verifyCTFInvariant (Some 100) [Some 100, Some 100]
       = Some \<lparr>isValid = True, vaultBalance = 100, totalOutcomeSupply = 200\<rparr>
   \<and> vault (run True \<lparr>oracle_key = 7, question_id = [], outcome_slot_count = 2,
             is_resolved = False, payout_numerators = [], condition_id = []\<rparr>
           [Split 5 100 [1, 2] 9, Split 6 100 [1, 2] 9] (initial_ledger (\<lambda>_ _. 1000))) 5 = 100
   \<and> supply_of (run True \<lparr>oracle_key = 7, question_id = [], outcome_slot_count = 2,
             is_resolved = False, payout_numerators = [], condition_id = []\<rparr>
           [Split 5 100 [1, 2] 9, Split 6 100 [1, 2] 9] (initial_ledger (\<lambda>_ _. 1000))) 0 = 200"
  using run_binary_split full_single_bit_binary run_two_assets
  by (simp add: verifyCTFInvariant_def getVaultBalance_def)

text \<open>
  Claim C1, as amended.  In every state reached from the initial ledgers of a condition by
  splits and merges that all use one collateral asset and the full single-bit partition,
  the supply of every outcome index equals the vault balance of that asset; hence the
  supplies sum to \<open>outcome_slot_count\<close> times the vault balance.  This is what the SDK's
  \<open>verifyCTFInvariant\<close> checks: once the vault exists the call reports \<open>isValid\<close>, and
  before the first successful split, when there is no vault account, it throws.
\<close>

theorem conservation_single_asset:
  assumes "\<forall>x\<in>set ops. op_asset x = asset
             \<and> full_single_bit (op_partition x) (unat (outcome_slot_count c))"
  shows "(\<forall>i<unat (outcome_slot_count c).
            supply_of (run oc c ops (initial_ledger bal)) i
              = vault (run oc c ops (initial_ledger bal)) asset)
    \<and> (\<Sum>i<unat (outcome_slot_count c). supply_of (run oc c ops (initial_ledger bal)) i)
        = unat (outcome_slot_count c) * vault (run oc c ops (initial_ledger bal)) asset
    \<and> verifyCTFInvariant (vault_account oc c asset ops (initial_ledger bal))
          (map (\<lambda>i. Some (supply_of (run oc c ops (initial_ledger bal)) i))
             [0..<unat (outcome_slot_count c)])
        = (if vault_created oc c asset ops (initial_ledger bal)
           then Some \<lparr>isValid = True,
                  vaultBalance = vault (run oc c ops (initial_ledger bal)) asset,
                  totalOutcomeSupply =
                    unat (outcome_slot_count c) * vault (run oc c ops (initial_ledger bal)) asset\<rparr>
           else None)"
proof -
  let ?n = "unat (outcome_slot_count c)"
  let ?st = "run oc c ops (initial_ledger bal)"
  have "\<forall>i<?n. supply_of (initial_ledger bal) i = vault (initial_ledger bal) asset"
    by (simp add: initial_ledger_def)
  with assms have inv: "\<forall>i<?n. supply_of ?st i = vault ?st asset"
    by (rule run_invariant)
  then have sum: "(\<Sum>i<?n. supply_of ?st i) = ?n * vault ?st asset"
    by simp
  have "sum_list (map (supply_of ?st) [0..<?n]) = (\<Sum>i<?n. supply_of ?st i)"
    by (simp add: sum_list_sum_nth atLeast0LessThan)
  with sum have tot: "total_supply (map (\<lambda>i. Some (supply_of ?st i)) [0..<?n]) = ?n * vault ?st asset"
    by (simp add: total_supply_Some)
  have "verifyCTFInvariant (vault_account oc c asset ops (initial_ledger bal))
          (map (\<lambda>i. Some (supply_of ?st i)) [0..<?n])
        = (if vault_created oc c asset ops (initial_ledger bal)
           then Some \<lparr>isValid = True, vaultBalance = vault ?st asset,
                  totalOutcomeSupply = ?n * vault ?st asset\<rparr>
           else None)"
    unfolding verifyCTFInvariant_def getVaultBalance_def vault_account_def tot
    by (simp add: mult.commute)
  with inv sum show ?thesis by blast
qed

theorem conservation_single_asset_witness:
  "supply_of (run True \<lparr>oracle_key = 7, question_id = [], outcome_slot_count = 2, is_resolved = False,
             payout_numerators = [], condition_id = []\<rparr>
           [Split 5 100 [1, 2] 9] (initial_ledger (\<lambda>_ _. 1000))) 1
   = vault (run True \<lparr>oracle_key = 7, question_id = [], outcome_slot_count = 2, is_resolved = False,
             payout_numerators = [], condition_id = []\<rparr>
           [Split 5 100 [1, 2] 9] (initial_ledger (\<lambda>_ _. 1000))) 5
   \<and> vault (run True \<lparr>oracle_key = 7, question_id = [], outcome_slot_count = 2, is_resolved = False,
             payout_numerators = [], condition_id = []\<rparr>
           [Split 5 100 [1, 2] 9] (initial_ledger (\<lambda>_ _. 1000))) 5 = 100"
proof -
  let ?c = "\<lparr>oracle_key = 7, question_id = [], outcome_slot_count = 2, is_resolved = False,
             payout_numerators = [], condition_id = []\<rparr>"
  have "\<forall>x\<in>set [Split 5 100 [1, 2] 9]. op_asset x = 5
      \<and> full_single_bit (op_partition x) (unat (outcome_slot_count ?c))"
    using full_single_bit_binary by simp
  from conservation_single_asset [OF this, of True "\<lambda>_ _. 1000"]
  have "\<forall>i<2. supply_of (run True ?c [Split 5 100 [1, 2] 9] (initial_ledger (\<lambda>_ _. 1000))) i
      = vault (run True ?c [Split 5 100 [1, 2] 9] (initial_ledger (\<lambda>_ _. 1000))) 5"
    by simp
  then have "supply_of (run True ?c [Split 5 100 [1, 2] 9] (initial_ledger (\<lambda>_ _. 1000))) 1
      = vault (run True ?c [Split 5 100 [1, 2] 9] (initial_ledger (\<lambda>_ _. 1000))) 5"
    by simp
  with run_binary_split show ?thesis by blast
qed

section \<open>Redemption\<close>

lemma burn_claims_custody:
  "burn_claims n s payer a st = Inr st' \<Longrightarrow> vault st' = vault st \<and> balances st' = balances st"
  by (auto simp: burn_claims_def split: if_splits)

lemma redeem_loop_trace:
  "redeem_loop oc c den amount payer sets tot tr st = (r, tr', st') \<Longrightarrow>
   (\<exists>k\<le>length sets. tr' = tr @ map (\<lambda>s. Burn s amount) (take k sets)
       \<and> (\<forall>t. r = Inr t \<longrightarrow> k = length sets))
   \<and> vault st' = vault st \<and> balances st' = balances st"
proof (induction sets arbitrary: tot tr st)
  case Nil
  then show ?case by auto
next
  case (Cons s sets)
  show ?case
  proof (cases "\<exists>num p tot' st1.
      calculate_payout_numerator (payout_numerators c) s = Inr num
      \<and> payout amount num den = Inr p
      \<and> add_u64 oc tot p = Inr tot'
      \<and> burn_claims (unat (outcome_slot_count c)) (unat s) payer (unat amount) st = Inr st1")
    case True
    then obtain num p tot' st1 where
      ok: "calculate_payout_numerator (payout_numerators c) s = Inr num"
        "payout amount num den = Inr p" "add_u64 oc tot p = Inr tot'"
        "burn_claims (unat (outcome_slot_count c)) (unat s) payer (unat amount) st = Inr st1"
      by blast
    with Cons.prems have
      "redeem_loop oc c den amount payer sets tot' (tr @ [Burn s amount]) st1 = (r, tr', st')"
      by simp
    from Cons.IH [OF this] obtain k where k: "k \<le> length sets"
      "tr' = (tr @ [Burn s amount]) @ map (\<lambda>s. Burn s amount) (take k sets)"
      "\<forall>t. r = Inr t \<longrightarrow> k = length sets"
      and cust: "vault st' = vault st1" "balances st' = balances st1"
      by blast
    from k have "Suc k \<le> length (s # sets)"
      "tr' = tr @ map (\<lambda>s. Burn s amount) (take (Suc k) (s # sets))"
      "\<forall>t. r = Inr t \<longrightarrow> Suc k = length (s # sets)"
      by simp_all
    moreover from cust burn_claims_custody [OF ok(4)]
    have "vault st' = vault st \<and> balances st' = balances st" by simp
    ultimately show ?thesis by blast
  next
    case False
    with Cons.prems have "tr' = tr" "st' = st" "\<forall>t. r \<noteq> Inr t"
      by (auto split: sum.splits)
    then have "0 \<le> length (s # sets)" "tr' = tr @ map (\<lambda>s. Burn s amount) (take 0 (s # sets))"
      "\<forall>t. r = Inr t \<longrightarrow> 0 = length (s # sets)" "vault st' = vault st \<and> balances st' = balances st"
      by simp_all
    then show ?thesis by blast
  qed
qed

lemma redeem_loop_claims:
  "redeem_loop oc c den amount payer sets tot tr st = (Inr t, tr', st') \<Longrightarrow>
   unat amount * cover_count (unat (outcome_slot_count c)) (map unat sets) i \<le> claims st i payer
   \<and> claims st' i payer = claims st i payer
        - unat amount * cover_count (unat (outcome_slot_count c)) (map unat sets) i"
proof (induction sets arbitrary: tot tr st)
  case Nil
  then show ?case by (simp add: cover_count_Nil)
next
  case (Cons s sets)
  let ?n = "unat (outcome_slot_count c)"
  from Cons.prems obtain num p tot' st1 where
    b: "burn_claims ?n (unat s) payer (unat amount) st = Inr st1"
    and r: "redeem_loop oc c den amount payer sets tot' (tr @ [Burn s amount]) st1 = (Inr t, tr', st')"
    by (auto split: sum.splits)
  from b have ok: "\<forall>i\<in>set (covered ?n (unat s)). unat amount \<le> claims st i payer"
    and st1: "claims st1 = (\<lambda>i p. if covers ?n (unat s) i \<and> p = payer
                           then claims st i p - unat amount else claims st i p)"
    by (auto simp: burn_claims_def split: if_splits)
  note IH = Cons.IH [OF r]
  show ?case
  proof (cases "covers ?n (unat s) i")
    case True
    with ok have "unat amount \<le> claims st i payer" by (simp add: set_covered)
    with IH True show ?thesis
      by (simp add: st1 cover_count_Cons distrib_left) linarith
  next
    case False
    with IH show ?thesis by (simp add: st1 cover_count_Cons)
  qed
qed

text \<open>
  Claim C9 (burn before transfer in redeem).  In every execution of \<open>redeem_positions\<close> the
  token calls are the burns of a prefix of the index sets, in order, followed, only when
  every index set has been burnt, by the single transfer.  An execution that fails,
  wherever it stops, has moved no collateral: the vault and every collateral balance are
  as before.  An execution that succeeds has taken \<open>amount\<close> claim units from the caller for
  every listed index set covering a slot, and the vault has paid exactly what the caller
  received.
\<close>

theorem redeem_burn_before_transfer:
  assumes "redeem_run oc c asset sets amount payer st = (r, tr, st')"
  shows "(r = None \<longrightarrow>
           (\<exists>t. tr = map (\<lambda>s. Burn s amount) sets @ [Transfer t]
              \<and> vault st asset = vault st' asset + unat t
              \<and> balances st' asset payer = balances st asset payer + unat t)
           \<and> (\<forall>i. unat amount * cover_count (unat (outcome_slot_count c)) (map unat sets) i
                     \<le> claims st i payer
                \<and> claims st' i payer = claims st i payer
                     - unat amount * cover_count (unat (outcome_slot_count c)) (map unat sets) i))
    \<and> (r \<noteq> None \<longrightarrow>
           (\<exists>k\<le>length sets. tr = map (\<lambda>s. Burn s amount) (take k sets))
           \<and> vault st' = vault st \<and> balances st' = balances st)"
proof (cases "is_resolved c")
  case False
  with assms show ?thesis by (auto simp: redeem_run_def)
next
  case res: True
  show ?thesis
  proof (cases "sum_u64 oc (payout_numerators c)")
    case (Inl e)
    with assms res show ?thesis by (auto simp: redeem_run_def)
  next
    case (Inr den)
    obtain lr ltr lst where loop: "redeem_loop oc c den amount payer sets 0 [] st = (lr, ltr, lst)"
      by (cases "redeem_loop oc c den amount payer sets 0 [] st") blast
    from redeem_loop_trace [OF loop] obtain k where k: "k \<le> length sets"
      "ltr = map (\<lambda>s. Burn s amount) (take k sets)" "\<forall>t. lr = Inr t \<longrightarrow> k = length sets"
      and cust: "vault lst = vault st" "balances lst = balances st"
      by auto
    show ?thesis
    proof (cases lr)
      case (Inl e)
      with assms res Inr loop have "r = Some e" "tr = ltr" "st' = lst"
        by (simp_all add: redeem_run_def)
      with k cust show ?thesis by auto
    next
      case tot: (Inr t)
      with k have full: "ltr = map (\<lambda>s. Burn s amount) sets" by simp
      show ?thesis
      proof (cases "transfer_payout asset payer (unat t) lst")
        case (Inl e)
        with assms res Inr loop tot have "r = Some e" "tr = ltr" "st' = lst"
          by (simp_all add: redeem_run_def)
        with k cust show ?thesis by auto
      next
        case paid: (Inr st2)
        with assms res Inr loop tot have r: "r = None" "tr = ltr @ [Transfer t]" "st' = st2"
          by (simp_all add: redeem_run_def)
        from paid have enough: "unat t \<le> vault lst asset"
          and st2: "vault st2 asset = vault lst asset - unat t"
            "balances st2 asset payer = balances lst asset payer + unat t"
            "claims st2 = claims lst"
          by (auto simp: transfer_payout_def split: if_splits)
        from loop tot have "redeem_loop oc c den amount payer sets 0 [] st = (Inr t, ltr, lst)"
          by simp
        note cl = redeem_loop_claims [OF this]
        have "tr = map (\<lambda>s. Burn s amount) sets @ [Transfer t]"
          by (simp add: r full)
        moreover have "vault st asset = vault st' asset + unat t"
          using enough by (simp add: r st2 cust)
        moreover have "balances st' asset payer = balances st asset payer + unat t"
          by (simp add: r st2 cust)
        moreover have "\<forall>i. unat amount * cover_count (unat (outcome_slot_count c)) (map unat sets) i
                     \<le> claims st i payer
                \<and> claims st' i payer = claims st i payer
                     - unat amount * cover_count (unat (outcome_slot_count c)) (map unat sets) i"
          using cl by (simp add: r st2)
        ultimately show ?thesis using r(1) by blast
      qed
    qed
  qed
qed

text \<open>
  Two executions on a binary condition resolved with numerators \<open>[0, 1]\<close>, a vault of 100
  and a caller holding 50 claim units of each outcome.  Redeeming 50 of \<open>0b10\<close> succeeds.
  Redeeming 30 of each of \<open>0b10\<close>, \<open>0b01\<close>, \<open>0b10\<close> fails at the third burn, after two burns
  and no transfer.
\<close>

lemmas redeem_eval = redeem_run_def sum_u64_def add_u64_def calculate_payout_numerator_def
  selected_total_def payout_def checked_mul_u128_def checked_div_u128_def burn_claims_def
  covered_def covers_def transfer_payout_def

lemma upt_0_2: "[0..<2] = [0, Suc 0]"
  by (simp add: numeral_2_eq_2)

lemma redeem_run_example_ok: "fst (redeem_run True
      \<lparr>oracle_key = 7, question_id = [], outcome_slot_count = 2, is_resolved = True,
        payout_numerators = [0, 1], condition_id = []\<rparr> 5 [2] 50 9
      \<lparr>vault = (\<lambda>a. if a = 5 then 100 else 0), supply_of = (\<lambda>_. 100),
        balances = (\<lambda>_ _. 0), claims = (\<lambda>i p. if p = 9 then 50 else 0)\<rparr>) = None"
  by (simp add: redeem_eval upt_0_2)

lemma redeem_run_example_fail: "fst (redeem_run True
      \<lparr>oracle_key = 7, question_id = [], outcome_slot_count = 2, is_resolved = True,
        payout_numerators = [0, 1], condition_id = []\<rparr> 5 [2, 1, 2] 30 9
      \<lparr>vault = (\<lambda>a. if a = 5 then 100 else 0), supply_of = (\<lambda>_. 100),
        balances = (\<lambda>_ _. 0), claims = (\<lambda>i p. if p = 9 then 50 else 0)\<rparr>)
    = Some InsufficientPosition"
  by (simp add: redeem_eval upt_0_2 bit_0 bit_Suc)

theorem redeem_burn_before_transfer_witness:
  "(\<exists>t. fst (snd (redeem_run True
      \<lparr>oracle_key = 7, question_id = [], outcome_slot_count = 2, is_resolved = True,
        payout_numerators = [0, 1], condition_id = []\<rparr> 5 [2] 50 9
      \<lparr>vault = (\<lambda>a. if a = 5 then 100 else 0), supply_of = (\<lambda>_. 100),
        balances = (\<lambda>_ _. 0), claims = (\<lambda>i p. if p = 9 then 50 else 0)\<rparr>))
       = [Burn 2 50, Transfer t])
   \<and> vault (snd (snd (redeem_run True
      \<lparr>oracle_key = 7, question_id = [], outcome_slot_count = 2, is_resolved = True,
        payout_numerators = [0, 1], condition_id = []\<rparr> 5 [2, 1, 2] 30 9
      \<lparr>vault = (\<lambda>a. if a = 5 then 100 else 0), supply_of = (\<lambda>_. 100),
        balances = (\<lambda>_ _. 0), claims = (\<lambda>i p. if p = 9 then 50 else 0)\<rparr>))) 5 = 100"
proof -
  let ?c = "\<lparr>oracle_key = 7, question_id = [], outcome_slot_count = 2, is_resolved = True,
        payout_numerators = [0, 1], condition_id = []\<rparr>"
  let ?st = "\<lparr>vault = (\<lambda>a. if a = 5 then 100 else 0), supply_of = (\<lambda>_. 100),
        balances = (\<lambda>_ _. 0), claims = (\<lambda>i p. if p = 9 then 50 else (0::nat))\<rparr>"
  let ?ok = "redeem_run True ?c 5 [2] 50 9 ?st"
  let ?bad = "redeem_run True ?c 5 [2, 1, 2] 30 9 ?st"
  have "?ok = (fst ?ok, fst (snd ?ok), snd (snd ?ok))" by simp
  from redeem_burn_before_transfer [OF this] redeem_run_example_ok
  have 1: "\<exists>t. fst (snd ?ok) = [Burn 2 50, Transfer t]" by auto
  have "?bad = (fst ?bad, fst (snd ?bad), snd (snd ?bad))" by simp
  from redeem_burn_before_transfer [OF this] redeem_run_example_fail
  have "vault (snd (snd ?bad)) = vault ?st" by auto
  then have 2: "vault (snd (snd ?bad)) 5 = 100" by simp
  from 1 2 show ?thesis by blast
qed

end
